theory Spec2Isabelle
  imports Main "HOL-Library.Multiset" "HOL-Library.Sublist"
begin

section \<open>Date grouping (analysis-ready-data notebook)\<close>

text \<open>
  An item of a search result is a JSON object; the code reads \<open>item['id']\<close> and
  \<open>item['properties']['acquired']\<close>, both strings.
\<close>

record item =
  item_id :: string
  acquired :: string

text \<open>
  \<open>str.split(sep)\<close> for a one-character separator: the pieces between the occurrences of
  the separator, never an empty list.
\<close>

fun split_sep :: "char \<Rightarrow> string \<Rightarrow> string list" where
  "split_sep c [] = [[]]"
| "split_sep c (x # xs) =
     (if x = c then [] # split_sep c xs
      else (case split_sep c xs of w # ws \<Rightarrow> (x # w) # ws | [] \<Rightarrow> [[x]]))"

text \<open>
  \<open>item['properties']['acquired'].split('T')[0]\<close>. Index 0 is always in range
  (\<open>split_sep_nonempty\<close> below), so the read cannot raise.
\<close>

definition get_acquired_date :: "item \<Rightarrow> string" where
  "get_acquired_date i = hd (split_sep (CHR ''T'') (acquired i))"

text \<open>\<open>[i['id'] for i in all_items if get_acquired_date(i) == date]\<close>\<close>

definition get_date_item_ids :: "string \<Rightarrow> item list \<Rightarrow> string list" where
  "get_date_item_ids date all_items =
     map item_id (filter (\<lambda>i. get_acquired_date i = date) all_items)"

text \<open>
  The dictionary built from a generator over the set of dates: one key per element of the
  set, with the value computed for that key.
\<close>

definition get_ids_by_date :: "item list \<Rightarrow> (string \<rightharpoonup> string list)" where
  "get_ids_by_date items =
     (let acquired_dates = map get_acquired_date items;
          unique_acquired_dates = set acquired_dates
      in (\<lambda>d. if d \<in> unique_acquired_dates then Some (get_date_item_ids d items) else None))"

section \<open>Order requests (analysis-ready-data notebook)\<close>

text \<open>
  The request is a nested dictionary with fixed keys; the area of interest is passed
  through unchanged, so its type is a parameter.
\<close>

record product =
  item_ids :: "string list"
  item_type :: string
  product_bundle :: string

datatype 'g tool =
    Clip 'g
  | Bandmath (pixel_type: string) (b1: string)
  | Composite

record delivery =
  single_archive :: bool
  archive_filename :: string
  archive_type :: string

record 'g orders_request =
  name :: string
  products :: "product list"
  tools :: "'g tool list"
  delivery :: delivery
  notifications_email :: bool

definition get_tools :: "'g \<Rightarrow> 'g tool list" where
  "get_tools aoi_geom =
     (let clip_tool = Clip aoi_geom;
          bandmath_tool = Bandmath ''32R'' ''(b4 - b3) / (b4+b3)'';
          composite_tool = Composite
      in [clip_tool, bandmath_tool, composite_tool])"

definition build_order :: "string list \<Rightarrow> string \<Rightarrow> 'g \<Rightarrow> 'g orders_request" where
  "build_order ids nm aoi_geom =
     (let itype = ''PSScene''; bundle = ''analytic_sr_udm2''
      in \<lparr> name = nm,
           products = [\<lparr> item_ids = ids, item_type = itype, product_bundle = bundle \<rparr>],
           tools = get_tools aoi_geom,
           delivery = \<lparr> single_archive = True,
                        archive_filename = ''{{name}}_{{order_id}}.zip'',
                        archive_type = ''zip'' \<rparr>,
           notifications_email = False \<rparr>)"

text \<open>
  \<open>[build_order(ids, date, aoi_geom) for date, ids in ids_by_date.items()]\<close>: the
  dictionary is read through \<open>items()\<close>, its (key, value) pairs in insertion order, so
  here it is the list of those pairs.
\<close>

definition get_orders_requests ::
    "(string \<times> string list) list \<Rightarrow> 'g \<Rightarrow> 'g orders_request list" where
  "get_orders_requests ids_by_date aoi_geom =
     map (\<lambda>(date, ids). build_order ids date aoi_geom) ids_by_date"

section \<open>Errors and outcomes\<close>

text \<open>The exceptions that leave the modelled functions.\<close>

datatype error =
    RequestError        \<comment> \<open>the HTTP call, the JSON decoding or the key lookup raised\<close>
  | NameError           \<comment> \<open>an unbound global name was read\<close>
  | ValueError          \<comment> \<open>\<open>list.remove\<close> of an absent element, malformed format string\<close>
  | KeyError            \<comment> \<open>a format field without a value\<close>
  | AlreadyExists       \<comment> \<open>the \<open>Exception('... already exists')\<close> of \<open>unzip\<close>\<close>
  | FileNotFoundError
  | NotADirectoryError
  | IsADirectoryError
  | FileExistsError
  | BadZipFile
  | InvalidLatitudeError \<comment> \<open>\<open>mercantile\<close> has no tile for the coordinates\<close>
  | OSError              \<comment> \<open>\<open>rmdir\<close> of the current directory, of the root or through \<open>..\<close>\<close>

datatype outcome = Returned | Raised error

section \<open>Polling one order (orders notebook)\<close>

text \<open>
  One fetch is \<open>requests.get\<close>, \<open>r.json()\<close> and \<open>response['state']\<close>: it gives a state
  string or raises. The service is the sequence of its replies: \<open>srv n\<close> answers the
  request made after \<open>n\<close> earlier ones.
\<close>

datatype reply = Fails | State string

record poll_state =
  count :: nat             \<comment> \<open>the loop counter\<close>
  printed :: "string list"  \<comment> \<open>the states printed, oldest first\<close>
  sleeps :: nat            \<comment> \<open>calls of \<open>time.sleep\<close>\<close>

definition end_states :: "string list" where
  "end_states = [''success'', ''failed'', ''partial'']"

function poll_loop :: "(nat \<Rightarrow> reply) \<Rightarrow> int \<Rightarrow> poll_state \<Rightarrow> outcome \<times> poll_state" where
  "poll_loop srv num_loops s =
     (if int (count s) < num_loops then
        (let s1 = s\<lparr>count := count s + 1\<rparr> in
         case srv (count s) of
           Fails \<Rightarrow> (Raised RequestError, s1)
         | State st \<Rightarrow>
             (let s2 = s1\<lparr>printed := printed s1 @ [st]\<rparr> in
              if st \<in> set end_states then (Returned, s2)
              else poll_loop srv num_loops (s2\<lparr>sleeps := sleeps s2 + 1\<rparr>)))
      else (Returned, s))"
  by pat_completeness auto
termination
  by (relation "measure (\<lambda>(srv, num_loops, s). nat (num_loops - int (count s)))") auto

definition poll_for_success_single :: "(nat \<Rightarrow> reply) \<Rightarrow> int \<Rightarrow> outcome \<times> poll_state" where
  "poll_for_success_single srv num_loops =
     poll_loop srv num_loops \<lparr>count = 0, printed = [], sleeps = 0\<rparr>"

section \<open>Polling several orders (analysis-ready-data notebook)\<close>

text \<open>
  Here a fetch is \<open>client.get_individual_order(oid).get()\<close> and \<open>order_info['state']\<close>.
  \<open>srv n oid\<close> answers the request for order \<open>oid\<close> made after \<open>n\<close> earlier requests.
  The lines printed, \<open>oid:state\<close>, are the record of what was observed.

  \<open>states += state\<close> and \<open>completed += oid\<close> extend a list by a string, that is by its
  characters. \<open>raise Exception(response)\<close> reads the global \<open>response\<close>, which the
  notebook never binds: what is raised is the NameError. \<open>polling.remove(oid)\<close> raises
  ValueError when \<open>oid\<close> is absent.
\<close>

record multi_state =
  polling :: "string list"
  completed :: "string list"
  states :: "string list"
  observed :: "(string \<times> string) list"   \<comment> \<open>(oid, state) printed, oldest first\<close>
  naps :: nat                              \<comment> \<open>calls of \<open>time.sleep\<close>\<close>

definition success_states :: "string list" where
  "success_states = [''success'', ''partial'']"

definition chars :: "string \<Rightarrow> string list" where
  "chars s = map (\<lambda>c. [c]) s"

fun poll_orders ::
    "(nat \<Rightarrow> string \<Rightarrow> reply) \<Rightarrow> string list \<Rightarrow> multi_state \<Rightarrow> outcome \<times> multi_state" where
  "poll_orders srv [] s = (Returned, s)"
| "poll_orders srv (oid # rest) s =
     (case srv (length (observed s)) oid of
        Fails \<Rightarrow> (Raised RequestError, s)
      | State st \<Rightarrow>
          (let s1 = s\<lparr>states := states s @ chars st, observed := observed s @ [(oid, st)]\<rparr> in
           if st = ''failed'' then (Raised NameError, s1)
           else if st \<in> set success_states then
             (if oid \<in> set (polling s1) then
                poll_orders srv rest
                  (s1\<lparr>polling := remove1 oid (polling s1), completed := completed s1 @ chars oid\<rparr>)
              else (Raised ValueError, s1))
           else poll_orders srv rest s1))"

function poll_rounds ::
    "(nat \<Rightarrow> string \<Rightarrow> reply) \<Rightarrow> int \<Rightarrow> nat \<Rightarrow> multi_state \<Rightarrow> outcome \<times> nat \<times> multi_state" where
  "poll_rounds srv num_loops cnt s =
     (if int cnt < num_loops then
        (let cnt1 = cnt + 1; s1 = s\<lparr>states := []\<rparr> in
         case poll_orders srv (polling s1) s1 of
           (Raised e, s2) \<Rightarrow> (Raised e, cnt1, s2)
         | (Returned, s2) \<Rightarrow>
             if length (polling s2) = 0 then (Returned, cnt1, s2)
             else poll_rounds srv num_loops cnt1 (s2\<lparr>naps := naps s2 + 1\<rparr>))
      else (Returned, cnt, s))"
  by pat_completeness auto
termination
  by (relation "measure (\<lambda>(srv, num_loops, cnt, s). nat (num_loops - int cnt))") auto

definition poll_for_success_multi ::
    "(nat \<Rightarrow> string \<Rightarrow> reply) \<Rightarrow> string list \<Rightarrow> int \<Rightarrow> outcome \<times> nat \<times> multi_state" where
  "poll_for_success_multi srv order_ids num_loops =
     poll_rounds srv num_loops 0
       \<lparr>polling = order_ids, completed = [], states = [], observed = [], naps = 0\<rparr>"

text \<open>The states observed for one order, oldest first.\<close>

definition observed_for :: "string \<Rightarrow> multi_state \<Rightarrow> string list" where
  "observed_for oid s = map snd (filter (\<lambda>e. fst e = oid) (observed s))"

section \<open>Search and tile addresses (webtiles notebook)\<close>

text \<open>
  Request bodies are JSON values. Latitude and longitude are floats that the code only
  passes on, so the type of numbers is a parameter.
\<close>

datatype 'n json =
    JStr string
  | JNum 'n
  | JList "'n json list"
  | JObj "(string \<times> 'n json) list"

text \<open>
  A page of search results: the identifiers of its features and, behind the link
  \<open>_links.next\<close> when there is one, the next page. A search has finitely many pages.
\<close>

datatype page = Page (features: "string list") (next_link: "page option")

text \<open>Truth value of an optional string argument: \<open>None\<close> and \<open>''\<close> are false.\<close>

definition truthy :: "string option \<Rightarrow> bool" where
  "truthy x = (case x of None \<Rightarrow> False | Some s \<Rightarrow> s \<noteq> [])"

text \<open>\<open>xs[:n]\<close>: a negative \<open>n\<close> counts from the end.\<close>

definition slice_to :: "'a list \<Rightarrow> int \<Rightarrow> 'a list" where
  "slice_to xs n = (if 0 \<le> n then take (nat n) xs else take (length xs - nat (- n)) xs)"

text \<open>
  The request body of \<open>get_item_ids\<close>; \<open>now\<close> is \<open>datetime.utcnow().isoformat()\<close>.
\<close>

definition filter_request ::
    "string \<Rightarrow> 'n json \<Rightarrow> string \<Rightarrow> string option \<Rightarrow> string option \<Rightarrow> 'n json" where
  "filter_request now geometry itype start_date end_date =
     (let geometry_filter = JObj [(''type'', JStr ''GeometryFilter''),
                                  (''field_name'', JStr ''geometry''),
                                  (''config'', geometry)];
          end_date1 = (case end_date of
                         None \<Rightarrow> now @ ''Z''
                       | Some e \<Rightarrow> if \<not> truthy end_date then now @ ''Z'' else e);
          config = [(''lt'', JStr end_date1)];
          config1 = (case start_date of
                       None \<Rightarrow> config
                     | Some b \<Rightarrow> if truthy start_date then config @ [(''gte'', JStr b)] else config);
          date_filter = JObj [(''type'', JStr ''DateRangeFilter''),
                              (''field_name'', JStr ''acquired''),
                              (''config'', JObj config1)];
          and_filter = JObj [(''type'', JStr ''AndFilter''),
                             (''config'', JList [geometry_filter, date_filter])]
      in JObj [(''item_types'', JList [JStr itype]), (''filter'', and_filter)])"

text \<open>
  The pagination loop: \<open>while len(ids) < limit and results['_links'].get('next')\<close>, with
  the current page and the identifiers gathered so far.
\<close>

fun follow_pages :: "int \<Rightarrow> string list \<Rightarrow> page \<Rightarrow> string list" where
  "follow_pages limit ids (Page fs None) = ids"
| "follow_pages limit ids (Page fs (Some results)) =
     (if int (length ids) < limit
      then follow_pages limit (ids @ features results) results
      else ids)"

text \<open>\<open>post\<close> is the search service: the first page it answers a request with.\<close>

definition get_item_ids ::
    "('n json \<Rightarrow> page) \<Rightarrow> string \<Rightarrow> 'n json \<Rightarrow> string \<Rightarrow> string option \<Rightarrow> string option \<Rightarrow> int
      \<Rightarrow> string list" where
  "get_item_ids post now geometry itype start_date end_date limit =
     (let results = post (filter_request now geometry itype start_date end_date);
          ids = features results
      in slice_to (follow_pages limit ids results) limit)"

definition coords_to_geometry :: "'n \<Rightarrow> 'n \<Rightarrow> 'n json" where
  "coords_to_geometry lat lon =
     JObj [(''type'', JStr ''Point''), (''coordinates'', JList [JNum lon, JNum lat])]"

text \<open>\<open>str\<close> of an integer, as \<open>str.format\<close> prints the fields \<open>z\<close>, \<open>x\<close> and \<open>y\<close>.\<close>

definition digit_char :: "nat \<Rightarrow> char" where
  "digit_char d = ''0123456789'' ! (d mod 10)"

function str_nat :: "nat \<Rightarrow> string" where
  "str_nat n = (if n < 10 then [digit_char n] else str_nat (n div 10) @ [digit_char (n mod 10)])"
  by pat_completeness auto
termination
  by (relation "measure id") auto

definition str_int :: "int \<Rightarrow> string" where
  "str_int i = (if i < 0 then CHR ''-'' # str_nat (nat (- i)) else str_nat (nat i))"

text \<open>
  \<open>template.format(**kw)\<close> for named fields: \<open>{name}\<close> is replaced by the value of
  \<open>name\<close>, \<open>{{\<close> and \<open>}}\<close> stand for one brace, a lone brace is a ValueError and a
  field without a value a KeyError.
\<close>

definition prepend :: "string \<Rightarrow> error + string \<Rightarrow> error + string" where
  "prepend v r = (case r of Inl e \<Rightarrow> Inl e | Inr s \<Rightarrow> Inr (v @ s))"

fun format_from :: "(string \<times> string) list \<Rightarrow> string \<Rightarrow> error + string"
  and format_field :: "(string \<times> string) list \<Rightarrow> string \<Rightarrow> string \<Rightarrow> error + string" where
  "format_from kw [] = Inr []"
| "format_from kw [c] =
     (if c = CHR ''{'' \<or> c = CHR ''}'' then Inl ValueError else Inr [c])"
| "format_from kw (c # d # ds) =
     (if c = CHR ''{'' then
        (if d = CHR ''{'' then prepend [c] (format_from kw ds) else format_field kw [] (d # ds))
      else if c = CHR ''}'' then
        (if d = CHR ''}'' then prepend [c] (format_from kw ds) else Inl ValueError)
      else prepend [c] (format_from kw (d # ds)))"
| "format_field kw nm [] = Inl ValueError"
| "format_field kw nm (c # cs) =
     (if c = CHR ''}'' then
        (case map_of kw nm of
           None \<Rightarrow> Inl KeyError
         | Some v \<Rightarrow> prepend v (format_from kw cs))
      else format_field kw (nm @ [c]) cs)"

definition tile_url_template :: string where
  "tile_url_template =
     ''https://tiles.planet.com/data/v1/{item_type}/{item_id}/{z}/{x}/{y}.png?api_key={api_key}''"

text \<open>A list comprehension whose element expression may raise: the first error leaves it.\<close>

fun map_result :: "('a \<Rightarrow> error + 'b) \<Rightarrow> 'a list \<Rightarrow> error + 'b list" where
  "map_result f [] = Inr []"
| "map_result f (x # xs) =
     (case f x of
        Inl e \<Rightarrow> Inl e
      | Inr y \<Rightarrow> (case map_result f xs of Inl e \<Rightarrow> Inl e | Inr ys \<Rightarrow> Inr (y # ys)))"

text \<open>
  \<open>tile\<close> is \<open>mercantile.tile(lon, lat, zoom)\<close>, a floating-point computation of a
  library: it gives the fields \<open>x\<close> and \<open>y\<close> of the tile, or raises where the Mercator
  projection has no tile (at a pole the ordinate is infinite). It is called after
  \<open>get_item_ids\<close> and before the list is built. \<open>api_key\<close> is the global
  \<open>PLANET_API_KEY\<close>.
\<close>

definition get_tile_urls ::
    "('n json \<Rightarrow> page) \<Rightarrow> string \<Rightarrow> ('n \<Rightarrow> 'n \<Rightarrow> int \<Rightarrow> error + int \<times> int) \<Rightarrow> string \<Rightarrow>
      'n \<Rightarrow> 'n \<Rightarrow> int \<Rightarrow> string \<Rightarrow> string option \<Rightarrow> string option \<Rightarrow> int \<Rightarrow> error + string list" where
  "get_tile_urls post now tile api_key lat lon zoom itype start_date end_date limit =
     (let geom = coords_to_geometry lat lon;
          ids = get_item_ids post now geom itype start_date end_date limit
      in case tile lon lat zoom of
           Inl e \<Rightarrow> Inl e
         | Inr t \<Rightarrow>
             map_result
               (\<lambda>i. format_from
                       [(''item_type'', itype), (''item_id'', i), (''x'', str_int (fst t)),
                        (''y'', str_int (snd t)), (''z'', str_int zoom), (''api_key'', api_key)]
                       tile_url_template)
               ids)"

text \<open>The identifiers of the pages after the given one, in order.\<close>

fun later_ids :: "page \<Rightarrow> string list" where
  "later_ids (Page fs None) = []"
| "later_ids (Page fs (Some p)) = features p @ later_ids p"

section \<open>Files and directories\<close>

text \<open>
  A path, as \<open>pathlib\<close> holds it, is the list of its parts; an absolute path starts with
  the root part \<open>/\<close> (or \<open>//\<close>, which POSIX keeps apart), and the empty list is \<open>.\<close>. The
  operations of \<open>pathlib\<close> on parts are lexical: they never look at the disk.

  The disk maps a location, the list of names that leads from the root directory to it,
  to what is there. The operating system resolves a path to a location by walking its
  parts from the root or from the current directory \<open>wd\<close>: every directory walked through
  must exist, \<open>..\<close> leads to the directory above and \<open>.\<close> stays. There are no symbolic
  links on the disk, and a relative path is resolved from a current directory that
  exists: from one that has been removed, every relative path is taken not to exist. A
  file holds bytes, which are a zip archive with its members (relative path and content
  of each file) or are not.
\<close>

type_synonym path = "string list"

datatype content = Bytes string | Archive "(path \<times> content) list"

datatype node = File content | Dir

type_synonym filesystem = "path \<Rightarrow> node option"

text \<open>\<open>os.path.join(a, b)\<close> for two arguments.\<close>

definition os_path_join :: "string \<Rightarrow> string \<Rightarrow> string" where
  "os_path_join a b =
     (if b \<noteq> [] \<and> hd b = CHR ''/'' then b
      else if a = [] \<or> last a = CHR ''/'' then a @ b
      else a @ ''/'' @ b)"

text \<open>
  \<open>pathlib.Path(s)\<close>: the root part, if any, then the parts between slashes; empty parts
  and \<open>.\<close> parts are dropped, \<open>..\<close> parts are kept. Exactly two leading slashes make the
  root \<open>//\<close>.
\<close>

definition root_of :: "string \<Rightarrow> path" where
  "root_of s =
     (if take 2 s = ''//'' \<and> take 3 s \<noteq> ''///'' then [''//'']
      else if take 1 s = ''/'' then [''/'']
      else [])"

definition Path :: "string \<Rightarrow> path" where
  "Path s = root_of s @ filter (\<lambda>p. p \<noteq> [] \<and> p \<noteq> ''.'') (split_sep (CHR ''/'') s)"

definition is_root :: "path \<Rightarrow> bool" where
  "is_root p \<longleftrightarrow> p = [''/''] \<or> p = [''//'']"

text \<open>\<open>path.parent\<close>: a root and \<open>.\<close> are their own parents.\<close>

definition parent :: "path \<Rightarrow> path" where
  "parent p = (if p = [] \<or> is_root p then p else butlast p)"

text \<open>\<open>path.name\<close> and \<open>path.stem\<close>; \<open>rfind\<close> is \<open>str.rfind\<close> for one character.\<close>

definition path_name :: "path \<Rightarrow> string" where
  "path_name p = (if p = [] \<or> is_root p then [] else last p)"

definition rfind :: "char \<Rightarrow> string \<Rightarrow> int" where
  "rfind c s =
     (if c \<in> set s then int (length s) - 1 - int (length (takeWhile (\<lambda>x. x \<noteq> c) (rev s)))
      else - 1)"

definition stem :: "path \<Rightarrow> string" where
  "stem p =
     (let nm = path_name p; i = rfind (CHR ''.'') nm
      in if 0 < i \<and> i < int (length nm) - 1 then take (nat i) nm else nm)"

text \<open>\<open>p / s\<close> for a string \<open>s\<close>.\<close>

definition path_join :: "path \<Rightarrow> string \<Rightarrow> path" where
  "path_join p s = (if s \<noteq> [] \<and> hd s = CHR ''/'' then Path s else p @ Path s)"

text \<open>
  Walking the parts \<open>cs\<close> from the directory at \<open>cur\<close>: the location the path names. The
  last part need not exist.
\<close>

fun walk :: "filesystem \<Rightarrow> path \<Rightarrow> string list \<Rightarrow> error + path" where
  "walk fs cur [] = Inr cur"
| "walk fs cur (c # cs) =
     (case fs cur of
        None \<Rightarrow> Inl FileNotFoundError
      | Some (File x) \<Rightarrow> Inl NotADirectoryError
      | Some Dir \<Rightarrow>
          walk fs (if c = ''..'' then butlast cur else if c = ''.'' then cur else cur @ [c]) cs)"

definition resolve :: "path \<Rightarrow> filesystem \<Rightarrow> path \<Rightarrow> error + path" where
  "resolve wd fs p =
     (if p \<noteq> [] \<and> is_root [hd p] then walk fs [] (tl p) else walk fs wd (''.'' # p))"

text \<open>\<open>path.exists()\<close> and \<open>os.path.exists\<close>; \<open>path.is_dir()\<close> and \<open>os.path.isdir\<close>.\<close>

definition os_exists :: "path \<Rightarrow> filesystem \<Rightarrow> path \<Rightarrow> bool" where
  "os_exists wd fs p = (case resolve wd fs p of Inl e \<Rightarrow> False | Inr t \<Rightarrow> fs t \<noteq> None)"

definition os_isdir :: "path \<Rightarrow> filesystem \<Rightarrow> path \<Rightarrow> bool" where
  "os_isdir wd fs p = (case resolve wd fs p of Inl e \<Rightarrow> False | Inr t \<Rightarrow> fs t = Some Dir)"

text \<open>\<open>os.mkdir(p)\<close>: one directory, in a directory that exists.\<close>

definition os_mkdir :: "path \<Rightarrow> path \<Rightarrow> filesystem \<Rightarrow> error + filesystem" where
  "os_mkdir wd p fs =
     (case resolve wd fs p of
        Inl e \<Rightarrow> Inl e
      | Inr t \<Rightarrow> if fs t \<noteq> None then Inl FileExistsError else Inr (fs(t \<mapsto> Dir)))"

text \<open>
  \<open>p.mkdir(parents=False, exist_ok=True)\<close> and \<open>p.mkdir(parents=True, exist_ok=True)\<close>, as
  \<open>pathlib\<close> writes them: \<open>os.mkdir\<close> first; on FileNotFoundError the parent is made in
  the same way and \<open>os.mkdir\<close> is tried again; any other error is dropped when the path
  is a directory.
\<close>

definition mkdir_exist_ok :: "path \<Rightarrow> path \<Rightarrow> filesystem \<Rightarrow> outcome \<times> filesystem" where
  "mkdir_exist_ok wd p fs =
     (case os_mkdir wd p fs of
        Inr fs1 \<Rightarrow> (Returned, fs1)
      | Inl e \<Rightarrow>
          if e = FileNotFoundError then (Raised e, fs)
          else if os_isdir wd fs p then (Returned, fs)
          else (Raised e, fs))"

function mkdir_parents :: "path \<Rightarrow> path \<Rightarrow> filesystem \<Rightarrow> outcome \<times> filesystem" where
  "mkdir_parents wd p fs =
     (case os_mkdir wd p fs of
        Inr fs1 \<Rightarrow> (Returned, fs1)
      | Inl e \<Rightarrow>
          if e = FileNotFoundError then
            (if parent p = p then (Raised e, fs)
             else (case mkdir_parents wd (parent p) fs of
                     (Raised e1, fs1) \<Rightarrow> (Raised e1, fs1)
                   | (Returned, fs1) \<Rightarrow> mkdir_exist_ok wd p fs1))
          else if os_isdir wd fs p then (Returned, fs)
          else (Raised e, fs))"
  by pat_completeness auto
termination
  by (relation "measure (\<lambda>(wd, p, fs). length p)") (auto simp: parent_def split: if_splits)

text \<open>\<open>open(p, 'wb').write(c)\<close>: creates or truncates the file the path names.\<close>

definition write_file :: "path \<Rightarrow> path \<Rightarrow> content \<Rightarrow> filesystem \<Rightarrow> error + filesystem" where
  "write_file wd p c fs =
     (case resolve wd fs p of
        Inl e \<Rightarrow> Inl e
      | Inr t \<Rightarrow>
          (case fs t of
             Some Dir \<Rightarrow> Inl IsADirectoryError
           | Some (File old) \<Rightarrow> Inr (fs(t \<mapsto> File c))
           | None \<Rightarrow> Inr (fs(t \<mapsto> File c))))"

section \<open>Downloading results (orders notebook)\<close>

text \<open>
  A result is the pair of \<open>r['location']\<close> and \<open>r['name']\<close>. \<open>http url\<close> is the body that
  \<open>requests.get(url, allow_redirects=True)\<close> receives, \<open>None\<close> when the call raises. The
  lines that \<open>download_results\<close> prints are left out.
\<close>

definition local_path :: "string \<Rightarrow> path" where
  "local_path nm = Path (os_path_join ''data'' nm)"

definition download_one ::
    "path \<Rightarrow> bool \<Rightarrow> (string \<Rightarrow> content option) \<Rightarrow> string \<times> string \<Rightarrow> filesystem
      \<Rightarrow> outcome \<times> filesystem" where
  "download_one wd overwrite http r fs =
     (let url = fst r; nm = snd r; path = local_path nm in
      if overwrite \<or> \<not> os_exists wd fs path then
        (case http url of
           None \<Rightarrow> (Raised RequestError, fs)
         | Some body \<Rightarrow>
             (case mkdir_parents wd (parent path) fs of
                (Raised e, fs1) \<Rightarrow> (Raised e, fs1)
              | (Returned, fs1) \<Rightarrow>
                  (case write_file wd path body fs1 of
                     Inl e \<Rightarrow> (Raised e, fs1)
                   | Inr fs2 \<Rightarrow> (Returned, fs2))))
      else (Returned, fs))"

fun download_loop ::
    "path \<Rightarrow> bool \<Rightarrow> (string \<Rightarrow> content option) \<Rightarrow> (string \<times> string) list \<Rightarrow> filesystem
      \<Rightarrow> outcome \<times> filesystem" where
  "download_loop wd overwrite http [] fs = (Returned, fs)"
| "download_loop wd overwrite http (r # rs) fs =
     (case download_one wd overwrite http r fs of
        (Raised e, fs1) \<Rightarrow> (Raised e, fs1)
      | (Returned, fs1) \<Rightarrow> download_loop wd overwrite http rs fs1)"

definition download_results ::
    "path \<Rightarrow> (string \<Rightarrow> content option) \<Rightarrow> (string \<times> string) list \<Rightarrow> bool \<Rightarrow> filesystem
      \<Rightarrow> outcome \<times> filesystem" where
  "download_results wd http results overwrite fs =
     (let results_urls = map fst results; results_names = map snd results
      in download_loop wd overwrite http (zip results_urls results_names) fs)"

section \<open>Unpacking an archive (analysis-ready-data notebook)\<close>

text \<open>
  \<open>shutil.rmtree(p)\<close>: \<open>p\<close> must be a directory; what is below it is removed, then the
  directory itself with \<open>os.rmdir(p)\<close>, which fails for \<open>.\<close>, for a path ending in \<open>..\<close>
  and for the root: \<open>OSError\<close> stands for the error of \<open>os.rmdir\<close>, whatever its subclass.
\<close>

definition rmtree :: "path \<Rightarrow> path \<Rightarrow> filesystem \<Rightarrow> outcome \<times> filesystem" where
  "rmtree wd p fs =
     (case resolve wd fs p of
        Inl e \<Rightarrow> (Raised e, fs)
      | Inr t \<Rightarrow>
          (case fs t of
             None \<Rightarrow> (Raised FileNotFoundError, fs)
           | Some (File x) \<Rightarrow> (Raised NotADirectoryError, fs)
           | Some Dir \<Rightarrow>
               (let fs1 = (\<lambda>q. if strict_prefix t q then None else fs q) in
                if p = [] \<or> last p = ''..'' \<or> t = [] then (Raised OSError, fs1)
                else (Returned, fs1(t := None)))))"

text \<open>\<open>ZipFile(location)\<close>: the members of the archive, or the error of opening it.\<close>

definition open_zip :: "path \<Rightarrow> path \<Rightarrow> filesystem \<Rightarrow> error + (path \<times> content) list" where
  "open_zip wd location fs =
     (case resolve wd fs location of
        Inl e \<Rightarrow> Inl e
      | Inr t \<Rightarrow>
          (case fs t of
             None \<Rightarrow> Inl FileNotFoundError
           | Some Dir \<Rightarrow> Inl IsADirectoryError
           | Some (File (Bytes b)) \<Rightarrow> Inl BadZipFile
           | Some (File (Archive ms)) \<Rightarrow> Inr ms))"

text \<open>
  \<open>os.path.normpath\<close> on parts: \<open>..\<close> cancels the part before it, lexically; at the start
  of a relative path it stays, at the root it is dropped.
\<close>

fun norm_comps :: "bool \<Rightarrow> path \<Rightarrow> path \<Rightarrow> path" where
  "norm_comps rooted new_comps [] = new_comps"
| "norm_comps rooted new_comps (c # cs) =
     (if c \<noteq> ''..'' \<or> (\<not> rooted \<and> new_comps = []) \<or> (new_comps \<noteq> [] \<and> last new_comps = ''..'')
      then norm_comps rooted (new_comps @ [c]) cs
      else if new_comps \<noteq> [] then norm_comps rooted (butlast new_comps) cs
      else norm_comps rooted new_comps cs)"

definition normpath :: "path \<Rightarrow> path" where
  "normpath p =
     (if p \<noteq> [] \<and> is_root [hd p] then hd p # norm_comps True [] (tl p)
      else norm_comps False [] p)"

text \<open>
  \<open>os.makedirs(p)\<close>: the directory above is made first when it does not exist (a
  FileExistsError of that call is passed over), then \<open>os.mkdir(p)\<close>, whose errors are
  raised.
\<close>

function makedirs :: "path \<Rightarrow> path \<Rightarrow> filesystem \<Rightarrow> outcome \<times> filesystem" where
  "makedirs wd p fs =
     (let head = parent p in
      case (if head \<noteq> [] \<and> head \<noteq> p \<and> \<not> os_exists wd fs head
            then (case makedirs wd head fs of
                    (Raised e, fs1) \<Rightarrow>
                      if e = FileExistsError then (Returned, fs1) else (Raised e, fs1)
                  | (Returned, fs1) \<Rightarrow> (Returned, fs1))
            else (Returned, fs)) of
        (Raised e, fs1) \<Rightarrow> (Raised e, fs1)
      | (Returned, fs1) \<Rightarrow>
          (case os_mkdir wd p fs1 of
             Inl e \<Rightarrow> (Raised e, fs1)
           | Inr fs2 \<Rightarrow> (Returned, fs2)))"
  by pat_completeness auto
termination
  by (relation "measure (\<lambda>(wd, p, fs). length p)") (auto simp: parent_def split: if_splits)

text \<open>
  Extraction of one member into \<open>dir\<close>, as \<open>zipfile\<close> does it: empty, \<open>.\<close> and \<open>..\<close> parts
  of the member's name are dropped, the target is the normalised join of \<open>dir\<close> and the
  name, its directory is made when it does not exist, then the file is written. The
  members are files.
\<close>

definition extract_member ::
    "path \<Rightarrow> path \<Rightarrow> path \<times> content \<Rightarrow> filesystem \<Rightarrow> outcome \<times> filesystem" where
  "extract_member wd dir m fs =
     (let arcname = filter (\<lambda>x. x \<noteq> [] \<and> x \<noteq> ''.'' \<and> x \<noteq> ''..'') (fst m);
          targetpath = normpath (dir @ arcname);
          upperdirs = parent targetpath in
      case (if upperdirs \<noteq> [] \<and> \<not> os_exists wd fs upperdirs
            then makedirs wd upperdirs fs else (Returned, fs)) of
        (Raised e, fs1) \<Rightarrow> (Raised e, fs1)
      | (Returned, fs1) \<Rightarrow>
          (case write_file wd targetpath (snd m) fs1 of
             Inl e \<Rightarrow> (Raised e, fs1)
           | Inr fs2 \<Rightarrow> (Returned, fs2)))"

fun extractall ::
    "path \<Rightarrow> path \<Rightarrow> (path \<times> content) list \<Rightarrow> filesystem \<Rightarrow> outcome \<times> filesystem" where
  "extractall wd dir [] fs = (Returned, fs)"
| "extractall wd dir (m # ms) fs =
     (case extract_member wd dir m fs of
        (Raised e, fs1) \<Rightarrow> (Raised e, fs1)
      | (Returned, fs1) \<Rightarrow> extractall wd dir ms fs1)"

text \<open>\<open>location.parent / location.stem\<close>\<close>

definition zipdir_of :: "string \<Rightarrow> path" where
  "zipdir_of filename = path_join (parent (Path filename)) (stem (Path filename))"

text \<open>The result is the returned \<open>zipdir\<close> or the exception, with the disk left behind.\<close>

definition unzip :: "path \<Rightarrow> string \<Rightarrow> bool \<Rightarrow> filesystem \<Rightarrow> (error + path) \<times> filesystem" where
  "unzip wd filename overwrite fs =
     (let location = Path filename;
          zipdir = path_join (parent location) (stem location) in
      case (if os_isdir wd fs zipdir
            then (if overwrite then rmtree wd zipdir fs else (Raised AlreadyExists, fs))
            else (Returned, fs)) of
        (Raised e, fs1) \<Rightarrow> (Inl e, fs1)
      | (Returned, fs1) \<Rightarrow>
          (case open_zip wd location fs1 of
             Inl e \<Rightarrow> (Inl e, fs1)
           | Inr myzip \<Rightarrow>
               (case extractall wd zipdir myzip fs1 of
                  (Raised e, fs2) \<Rightarrow> (Inl e, fs2)
                | (Returned, fs2) \<Rightarrow> (Inr zipdir, fs2))))"

section \<open>Vocabulary for the polling properties\<close>

text \<open>The service answers the requests numbered \<open>c\<close>, \<open>c + 1\<close>, ... with the states \<open>sts\<close>.\<close>

definition serves :: "(nat \<Rightarrow> reply) \<Rightarrow> nat \<Rightarrow> string list \<Rightarrow> bool" where
  "serves srv c sts \<longleftrightarrow> (\<forall>i < length sts. srv (c + i) = State (sts ! i))"

text \<open>For every order, no state observed before its last observed one is an end state.\<close>

definition settled :: "multi_state \<Rightarrow> bool" where
  "settled s \<longleftrightarrow> (\<forall>oid. set (butlast (observed_for oid s)) \<inter> set end_states = {})"

text \<open>
  The invariant of both loops of the multi-order poller: the orders still polled are
  pairwise distinct and none of them has shown an end state.
\<close>

definition poll_inv :: "multi_state \<Rightarrow> bool" where
  "poll_inv s \<longleftrightarrow> distinct (polling s)
     \<and> (\<forall>oid \<in> set (polling s). set (observed_for oid s) \<inter> set end_states = {})
     \<and> settled s"

section \<open>Vocabulary for the file properties\<close>

text \<open>
  The disk is a tree: the root is a directory and whatever exists is in a directory.
\<close>

definition wf_fs :: "filesystem \<Rightarrow> bool" where
  "wf_fs fs \<longleftrightarrow> fs [] = Some Dir \<and> (\<forall>l. fs l \<noteq> None \<longrightarrow> fs (butlast l) = Some Dir)"

text \<open>A path without \<open>..\<close> (and \<open>.\<close>) parts, and the location it names whatever the disk.\<close>

definition plain :: "path \<Rightarrow> bool" where
  "plain p \<longleftrightarrow> ''..'' \<notin> set p \<and> ''.'' \<notin> set p"

definition location :: "path \<Rightarrow> path \<Rightarrow> path" where
  "location wd p = (if p \<noteq> [] \<and> is_root [hd p] then tl p else wd @ p)"

text \<open>The disk after making directories of \<open>l\<close> and of everything above it.\<close>

definition with_dirs :: "path \<Rightarrow> filesystem \<Rightarrow> filesystem" where
  "with_dirs l fs = (\<lambda>q. if prefix q l then Some Dir else fs q)"

text \<open>The disk after putting a file at \<open>l\<close>, in directories made for it.\<close>

definition put_file :: "path \<Rightarrow> content \<Rightarrow> filesystem \<Rightarrow> filesystem" where
  "put_file l c fs = (with_dirs (butlast l) fs)(l \<mapsto> File c)"

text \<open>The disk without \<open>z\<close> and what is below it.\<close>

definition remove_tree :: "path \<Rightarrow> filesystem \<Rightarrow> filesystem" where
  "remove_tree z fs = (\<lambda>q. if prefix z q then None else fs q)"

text \<open>The disk after putting the members of an archive below \<open>z\<close>, one after the other.\<close>

definition unpack :: "path \<Rightarrow> (path \<times> content) list \<Rightarrow> filesystem \<Rightarrow> filesystem" where
  "unpack z ms fs = fold (\<lambda>m. put_file (z @ fst m) (snd m)) ms fs"

text \<open>
  Member names that extraction takes as they are: not empty, without empty, \<open>.\<close> and \<open>..\<close>
  parts, and none of them a directory of another.
\<close>

definition good_members :: "(path \<times> content) list \<Rightarrow> bool" where
  "good_members ms \<longleftrightarrow>
     (\<forall>m \<in> set ms. fst m \<noteq> [] \<and> [] \<notin> set (fst m) \<and> plain (fst m))
     \<and> (\<forall>m \<in> set ms. \<forall>m' \<in> set ms. \<not> strict_prefix (fst m) (fst m'))"

text \<open>
  Every directory on the way to \<open>l\<close> is there; no regular file is on the way to \<open>l\<close>.
\<close>

definition dirs_above :: "filesystem \<Rightarrow> path \<Rightarrow> bool" where
  "dirs_above fs l \<longleftrightarrow> (\<forall>q. strict_prefix q l \<longrightarrow> fs q = Some Dir)"

definition clear_above :: "filesystem \<Rightarrow> path \<Rightarrow> bool" where
  "clear_above fs l \<longleftrightarrow> (\<forall>q c. strict_prefix q l \<longrightarrow> fs q \<noteq> Some (File c))"

section \<open>Concrete inputs\<close>

definition example_items :: "item list" where
  "example_items =
     [\<lparr>item_id = ''a'', acquired = ''2019-04-02T15:36:57Z''\<rparr>,
      \<lparr>item_id = ''b'', acquired = ''2019-04-08T15:40:01Z''\<rparr>,
      \<lparr>item_id = ''c'', acquired = ''2019-04-02T15:36:58Z''\<rparr>]"

definition example_server :: "nat \<Rightarrow> string \<Rightarrow> reply" where
  "example_server n oid = (if n < 3 then State ''running'' else State ''success'')"

definition failing_server :: "nat \<Rightarrow> string \<Rightarrow> reply" where
  "failing_server n oid = (if n < 3 then State ''running'' else State ''failed'')"

definition failing_single_server :: "nat \<Rightarrow> reply" where
  "failing_single_server n = (if n < 2 then State ''running'' else State ''failed'')"

text \<open>A service whose first eight replies are \<open>running\<close>: two orders stay pending for four rounds.\<close>

definition late_server :: "nat \<Rightarrow> string \<Rightarrow> reply" where
  "late_server n oid = (if n < 8 then State ''running'' else State ''success'')"

definition example_single_server :: "nat \<Rightarrow> reply" where
  "example_single_server n = (if n < 2 then State ''running'' else State ''success'')"

text \<open>
  A stand-in for \<open>mercantile.tile\<close> at whole degrees: no tile at a pole, and the tile of
  San Francisco elsewhere.
\<close>

definition degree_tile :: "int \<Rightarrow> int \<Rightarrow> int \<Rightarrow> error + int \<times> int" where
  "degree_tile lon lat zoom =
     (if lat = 90 \<or> lat = - 90 then Inl InvalidLatitudeError else Inr (5241, 12665))"

definition example_pages :: page where
  "example_pages =
     Page [''i1'', ''i2''] (Some (Page [''i3'', ''i4''] (Some (Page [''i5'', ''i6''] None))))"

definition example_wd :: path where
  "example_wd = [''home'']"

definition example_fs :: filesystem where
  "example_fs =
     [[] \<mapsto> Dir, [''home''] \<mapsto> Dir, [''home'', ''data''] \<mapsto> Dir,
      [''home'', ''data'', ''a.tif''] \<mapsto> File (Bytes ''old'')]"

definition example_http :: "string \<Rightarrow> content option" where
  "example_http url = Some (Bytes url)"

definition example_results :: "(string \<times> string) list" where
  "example_results = [(''u1'', ''a.tif''), (''u2'', ''x/b.tif'')]"

definition dotdot_results :: "(string \<times> string) list" where
  "dotdot_results = [(''u1'', ''a.tif''), (''u2'', ''x/../a.tif'')]"

definition example_archive :: "(path \<times> content) list" where
  "example_archive = [([''a.tif''], Bytes ''A''), ([''sub'', ''b.tif''], Bytes ''B'')]"

definition example_disk :: filesystem where
  "example_disk =
     [[] \<mapsto> Dir, [''home''] \<mapsto> Dir, [''home'', ''data''] \<mapsto> Dir,
      [''home'', ''data'', ''order.zip''] \<mapsto> File (Archive example_archive),
      [''home'', ''data'', ''order''] \<mapsto> Dir,
      [''home'', ''data'', ''order'', ''old.txt''] \<mapsto> File (Bytes ''old''),
      [''home'', ''data'', ''plain''] \<mapsto> File (Bytes ''x''),
      [''home'', ''data'', ''plain.zip''] \<mapsto> File (Archive example_archive),
      [''home'', ''data'', ''new.zip''] \<mapsto> File (Archive example_archive)]"

section \<open>Properties of date grouping\<close>

lemma split_sep_nonempty: "split_sep c s \<noteq> []"
  by (induction s) (auto split: list.splits)

lemma hd_split_sep: "hd (split_sep c s) = takeWhile (\<lambda>x. x \<noteq> c) s"
proof (induction s)
  case Nil
  show ?case by simp
next
  case (Cons x xs)
  then show ?case
    using split_sep_nonempty [of c xs] by (cases "split_sep c xs") auto
qed

lemma get_acquired_date_takeWhile:
  "get_acquired_date i = takeWhile (\<lambda>x. x \<noteq> CHR ''T'') (acquired i)"
  by (simp add: get_acquired_date_def hd_split_sep)

lemma dom_get_ids_by_date: "dom (get_ids_by_date items) = get_acquired_date ` set items"
  by (auto simp: get_ids_by_date_def dom_def)

lemma get_ids_by_date_Some:
  "get_ids_by_date items d = Some ids \<longleftrightarrow>
     d \<in> get_acquired_date ` set items \<and> ids = get_date_item_ids d items"
  by (auto simp: get_ids_by_date_def)

lemma sum_groups_mset:
  assumes "finite D" and "get_acquired_date ` set items \<subseteq> D"
  shows "(\<Sum>d\<in>D. mset (get_date_item_ids d items)) = mset (map item_id items)"
  using assms(2)
proof (induction items)
  case Nil
  show ?case by (simp add: get_date_item_ids_def)
next
  case (Cons i items)
  let ?k = "get_acquired_date i"
  have k: "?k \<in> D" using Cons.prems by simp
  have "(\<Sum>d\<in>D. mset (get_date_item_ids d (i # items)))
      = (\<Sum>d\<in>D. (if ?k = d then {#item_id i#} else {#}) + mset (get_date_item_ids d items))"
    by (rule sum.cong) (simp_all add: get_date_item_ids_def)
  also have "\<dots> = (\<Sum>d\<in>D. if ?k = d then {#item_id i#} else {#})
                  + (\<Sum>d\<in>D. mset (get_date_item_ids d items))"
    by (rule sum.distrib)
  also have "(\<Sum>d\<in>D. if ?k = d then {#item_id i#} else {#}) = {#item_id i#}"
    using assms(1) k by (simp add: sum.delta)
  also have "(\<Sum>d\<in>D. mset (get_date_item_ids d items)) = mset (map item_id items)"
    using Cons by simp
  finally show ?case by simp
qed

lemma id_in_group:
  assumes "distinct (map item_id items)" and "i \<in> set items"
  shows "item_id i \<in> set (get_date_item_ids d items) \<longleftrightarrow> d = get_acquired_date i"
proof
  assume "item_id i \<in> set (get_date_item_ids d items)"
  then obtain j where j: "j \<in> set items" "get_acquired_date j = d" "item_id j = item_id i"
    by (auto simp: get_date_item_ids_def)
  from assms j(1,3) have "j = i"
    by (meson distinct_map inj_onD)
  with j(2) show "d = get_acquired_date i" by simp
next
  assume "d = get_acquired_date i"
  with assms(2) show "item_id i \<in> set (get_date_item_ids d items)"
    by (auto simp: get_date_item_ids_def)
qed


text \<open>
  C2. The keys of the mapping returned by \<open>get_ids_by_date\<close> are exactly the date
  substrings of the items (for each timestamp, the part before the first \<open>T\<close>); the
  value of a date is the list of the identifiers of the items with that date, in the
  order of the input; the empty input gives the empty mapping.
\<close>

theorem get_ids_by_date_mapping:
  "dom (get_ids_by_date items) = (\<lambda>i. takeWhile (\<lambda>c. c \<noteq> CHR ''T'') (acquired i)) ` set items
   \<and> (\<forall>d \<in> dom (get_ids_by_date items).
         get_ids_by_date items d =
           Some (map item_id (filter (\<lambda>i. takeWhile (\<lambda>c. c \<noteq> CHR ''T'') (acquired i) = d) items)))
   \<and> get_ids_by_date [] = Map.empty"
proof (intro conjI ballI)
  show "dom (get_ids_by_date items) = (\<lambda>i. takeWhile (\<lambda>c. c \<noteq> CHR ''T'') (acquired i)) ` set items"
    by (simp add: dom_get_ids_by_date get_acquired_date_takeWhile [abs_def])
next
  fix d assume "d \<in> dom (get_ids_by_date items)"
  then have "get_ids_by_date items d = Some (get_date_item_ids d items)"
    by (auto simp: get_ids_by_date_Some)
  then show "get_ids_by_date items d =
      Some (map item_id (filter (\<lambda>i. takeWhile (\<lambda>c. c \<noteq> CHR ''T'') (acquired i) = d) items))"
    by (simp add: get_date_item_ids_def get_acquired_date_takeWhile)
next
  show "get_ids_by_date [] = Map.empty"
    by (simp add: get_ids_by_date_def)
qed

theorem get_ids_by_date_mapping_witness:
  "''2019-04-02'' \<in> dom (get_ids_by_date example_items)
   \<and> get_ids_by_date example_items ''2019-04-02'' = Some [''a'', ''c'']"
proof -
  have d: "''2019-04-02'' \<in> dom (get_ids_by_date example_items)"
    by (simp add: dom_get_ids_by_date example_items_def get_acquired_date_takeWhile)
  from get_ids_by_date_mapping [of example_items] d
  have "get_ids_by_date example_items ''2019-04-02'' =
      Some (map item_id (filter (\<lambda>i. takeWhile (\<lambda>c. c \<noteq> CHR ''T'') (acquired i) = ''2019-04-02'')
        example_items))"
    by blast
  then show ?thesis using d by (simp add: example_items_def)
qed

text \<open>
  C3. When the identifiers of the items are pairwise distinct, the groups of
  \<open>get_ids_by_date\<close> partition them: the identifier of an item is in the group of a date
  exactly when that date is the item's own date substring, and that group exists; no
  group repeats an identifier or holds one that is not in the input; and the multiset
  union of all groups is the multiset of the input identifiers.
\<close>

theorem get_ids_by_date_partition:
  assumes "distinct (map item_id items)"
  shows "(\<forall>i \<in> set items. \<forall>d ids. get_ids_by_date items d = Some ids \<longrightarrow>
            (item_id i \<in> set ids \<longleftrightarrow> d = get_acquired_date i))
       \<and> (\<forall>i \<in> set items. \<exists>ids. get_ids_by_date items (get_acquired_date i) = Some ids
            \<and> item_id i \<in> set ids)
       \<and> (\<forall>d ids. get_ids_by_date items d = Some ids \<longrightarrow>
            distinct ids \<and> set ids \<subseteq> item_id ` set items)
       \<and> (\<Sum>d \<in> dom (get_ids_by_date items). mset (the (get_ids_by_date items d)))
            = mset (map item_id items)"
proof (intro conjI)
  show "\<forall>i \<in> set items. \<forall>d ids. get_ids_by_date items d = Some ids \<longrightarrow>
            (item_id i \<in> set ids \<longleftrightarrow> d = get_acquired_date i)"
    using id_in_group [OF assms] by (simp add: get_ids_by_date_Some)
next
  show "\<forall>i \<in> set items. \<exists>ids. get_ids_by_date items (get_acquired_date i) = Some ids
            \<and> item_id i \<in> set ids"
    using id_in_group [OF assms] by (simp add: get_ids_by_date_Some)
next
  have "distinct (get_date_item_ids d items)" for d
    unfolding get_date_item_ids_def using assms by (simp add: distinct_map_filter)
  moreover have "set (get_date_item_ids d items) \<subseteq> item_id ` set items" for d
    by (auto simp: get_date_item_ids_def)
  ultimately show "\<forall>d ids. get_ids_by_date items d = Some ids \<longrightarrow>
            distinct ids \<and> set ids \<subseteq> item_id ` set items"
    by (simp add: get_ids_by_date_Some)
next
  have "(\<Sum>d \<in> dom (get_ids_by_date items). mset (the (get_ids_by_date items d)))
      = (\<Sum>d \<in> get_acquired_date ` set items. mset (get_date_item_ids d items))"
    unfolding dom_get_ids_by_date
    by (rule sum.cong) (auto simp: get_ids_by_date_def)
  also have "\<dots> = mset (map item_id items)"
    by (rule sum_groups_mset) simp_all
  finally show "(\<Sum>d \<in> dom (get_ids_by_date items). mset (the (get_ids_by_date items d)))
            = mset (map item_id items)" .
qed

theorem get_ids_by_date_partition_witness:
  "distinct (map item_id example_items)
   \<and> (\<Sum>d \<in> dom (get_ids_by_date example_items). mset (the (get_ids_by_date example_items d)))
       = {#''a'', ''b'', ''c''#}"
proof -
  have d: "distinct (map item_id example_items)"
    by (simp add: example_items_def)
  from get_ids_by_date_partition [OF d]
  have "(\<Sum>d \<in> dom (get_ids_by_date example_items). mset (the (get_ids_by_date example_items d)))
      = mset (map item_id example_items)"
    by blast
  then show ?thesis using d by (simp add: example_items_def)
qed

section \<open>Properties of the order requests\<close>

text \<open>
  C8. \<open>get_orders_requests\<close> builds one request for each date group, in the order of the
  groups; the request of a group has the group's date as its name and one product, whose
  item identifiers are the group's list.
\<close>

theorem get_orders_requests_groups:
  "length (get_orders_requests ids_by_date aoi_geom) = length ids_by_date
   \<and> map (\<lambda>r. (name r, map item_ids (products r))) (get_orders_requests ids_by_date aoi_geom)
       = map (\<lambda>(date, ids). (date, [ids])) ids_by_date"
  by (simp add: get_orders_requests_def build_order_def split_def)


section \<open>Properties of the single-order poller\<close>

declare poll_loop.simps [simp del] poll_rounds.simps [simp del]

lemma serves_Cons: "serves srv c (x # xs) \<longleftrightarrow> srv c = State x \<and> serves srv (Suc c) xs"
  unfolding serves_def
  by (auto simp: less_Suc_eq_0_disj)

lemma poll_loop_terminal:
  assumes "serves srv (count s) (pre @ [t])"
    and "set pre \<inter> set end_states = {}"
    and "t \<in> set end_states"
    and "int (count s + length pre) < num_loops"
  shows "poll_loop srv num_loops s =
     (Returned, \<lparr>count = count s + length pre + 1, printed = printed s @ pre @ [t],
                 sleeps = sleeps s + length pre\<rparr>)"
  using assms
proof (induction pre arbitrary: s)
  case Nil
  then show ?case
    by (subst poll_loop.simps) (simp add: serves_Cons)
next
  case (Cons x xs)
  let ?s = "s\<lparr>count := count s + 1, printed := printed s @ [x], sleeps := sleeps s + 1\<rparr>"
  from Cons.prems have x: "srv (count s) = State x" "x \<notin> set end_states"
    and rest: "serves srv (count ?s) (xs @ [t])" "set xs \<inter> set end_states = {}"
    and lt: "int (count ?s + length xs) < num_loops"
    by (auto simp: serves_Cons)
  have "poll_loop srv num_loops s = poll_loop srv num_loops ?s"
    using x lt by (subst poll_loop.simps) simp
  also have "\<dots> = (Returned, \<lparr>count = count ?s + length xs + 1, printed = printed ?s @ xs @ [t],
                 sleeps = sleeps ?s + length xs\<rparr>)"
    by (rule Cons.IH [OF rest Cons.prems(3) lt])
  finally show ?case by simp
qed

lemma poll_loop_exhaust:
  assumes "\<forall>i. int i < num_loops \<longrightarrow> (\<exists>st. srv i = State st \<and> st \<notin> set end_states)"
  shows "fst (poll_loop srv num_loops s) = Returned
       \<and> count (snd (poll_loop srv num_loops s)) = max (count s) (nat num_loops)
       \<and> sleeps (snd (poll_loop srv num_loops s)) = sleeps s + (nat num_loops - count s)
       \<and> length (printed (snd (poll_loop srv num_loops s))) = length (printed s) + (nat num_loops - count s)
       \<and> (set (printed s) \<inter> set end_states = {} \<longrightarrow> set (printed (snd (poll_loop srv num_loops s))) \<inter> set end_states = {})"
  using assms
proof (induction srv num_loops s rule: poll_loop.induct)
  case (1 srv num_loops s)
  show ?case
  proof (cases "int (count s) < num_loops")
    case False
    then show ?thesis by (subst (1 2 3 4 5) poll_loop.simps) auto
  next
    case True
    with "1.prems" obtain st where st: "srv (count s) = State st" "st \<notin> set end_states"
      by blast
    let ?s = "s\<lparr>count := count s + 1, printed := printed s @ [st], sleeps := sleeps s + 1\<rparr>"
    have eq: "poll_loop srv num_loops s = poll_loop srv num_loops ?s"
      using True st by (subst poll_loop.simps) simp
    have IH: "fst (poll_loop srv num_loops ?s) = Returned
       \<and> count (snd (poll_loop srv num_loops ?s)) = max (count ?s) (nat num_loops)
       \<and> sleeps (snd (poll_loop srv num_loops ?s)) = sleeps ?s + (nat num_loops - count ?s)
       \<and> length (printed (snd (poll_loop srv num_loops ?s))) = length (printed ?s) + (nat num_loops - count ?s)
       \<and> (set (printed ?s) \<inter> set end_states = {} \<longrightarrow> set (printed (snd (poll_loop srv num_loops ?s))) \<inter> set end_states = {})"
      using "1.IH" [OF True refl st(1) refl st(2)] "1.prems" by simp
    show ?thesis unfolding eq using IH True st(2) by auto
  qed
qed

lemma poll_loop_count_le:
  "count (snd (poll_loop srv num_loops s)) \<le> max (count s) (nat num_loops)"
proof (induction srv num_loops s rule: poll_loop.induct)
  case (1 srv num_loops s)
  show ?case
  proof (cases "int (count s) < num_loops")
    case False
    then show ?thesis by (subst poll_loop.simps) simp
  next
    case True
    show ?thesis
    proof (cases "srv (count s)")
      case Fails
      with True show ?thesis by (subst poll_loop.simps) simp
    next
      case (State st)
      show ?thesis
      proof (cases "st \<in> set end_states")
        case True
        with State \<open>int (count s) < num_loops\<close> show ?thesis by (subst poll_loop.simps) simp
      next
        case False
        from "1.IH" [OF True refl State refl False]
        show ?thesis using State True False by (subst poll_loop.simps) (simp add: Let_def)
      qed
    qed
  qed
qed

lemma poll_loop_no_raise:
  assumes "\<forall>i. srv i \<noteq> Fails"
  shows "fst (poll_loop srv num_loops s) = Returned"
  using assms
proof (induction srv num_loops s rule: poll_loop.induct)
  case (1 srv num_loops s)
  show ?case
  proof (cases "int (count s) < num_loops")
    case False
    then show ?thesis by (subst poll_loop.simps) simp
  next
    case True
    show ?thesis
    proof (cases "srv (count s)")
      case Fails
      with "1.prems" show ?thesis by simp
    next
      case (State st)
      show ?thesis
      proof (cases "st \<in> set end_states")
        case True
        with State \<open>int (count s) < num_loops\<close> show ?thesis by (subst poll_loop.simps) simp
      next
        case False
        from "1.IH" [OF True refl State refl False "1.prems"]
        show ?thesis using State True False by (subst poll_loop.simps) (simp add: Let_def)
      qed
    qed
  qed
qed


section \<open>Properties of the multi-order poller\<close>

lemma observed_for_snoc:
  "observed_for o' (s\<lparr>states := ss, observed := observed s @ [(oid, st)]\<rparr>) =
     observed_for o' s @ (if oid = o' then [st] else [])"
  by (simp add: observed_for_def)

lemma observed_for_other [simp]:
  "observed_for o' (s\<lparr>polling := p\<rparr>) = observed_for o' s"
  "observed_for o' (s\<lparr>completed := c\<rparr>) = observed_for o' s"
  "observed_for o' (s\<lparr>states := ss\<rparr>) = observed_for o' s"
  "observed_for o' (s\<lparr>naps := n\<rparr>) = observed_for o' s"
  by (simp_all add: observed_for_def)

lemma settled_other [simp]:
  "settled (s\<lparr>polling := p\<rparr>) = settled s"
  "settled (s\<lparr>completed := c\<rparr>) = settled s"
  "settled (s\<lparr>states := ss\<rparr>) = settled s"
  "settled (s\<lparr>naps := n\<rparr>) = settled s"
  by (simp_all add: settled_def)

lemma poll_inv_other [simp]:
  "poll_inv (s\<lparr>completed := c\<rparr>) = poll_inv s"
  "poll_inv (s\<lparr>states := ss\<rparr>) = poll_inv s"
  "poll_inv (s\<lparr>naps := n\<rparr>) = poll_inv s"
  by (simp_all add: poll_inv_def)

lemma settled_fetch:
  assumes "poll_inv s" and "oid \<in> set (polling s)"
  shows "settled (s\<lparr>states := ss, observed := observed s @ [(oid, st)]\<rparr>)"
  using assms unfolding poll_inv_def settled_def
  by (auto simp: observed_for_snoc)

lemma poll_inv_fetch_pending:
  assumes "poll_inv s" and "oid \<in> set (polling s)" and "st \<notin> set end_states"
  shows "poll_inv (s\<lparr>states := ss, observed := observed s @ [(oid, st)]\<rparr>)"
proof -
  let ?s = "s\<lparr>states := ss, observed := observed s @ [(oid, st)]\<rparr>"
  have "settled ?s" by (rule settled_fetch [OF assms(1,2)])
  moreover have "\<forall>o' \<in> set (polling ?s). set (observed_for o' ?s) \<inter> set end_states = {}"
    using assms unfolding poll_inv_def by (auto simp: observed_for_snoc)
  moreover have "distinct (polling ?s)" using assms(1) by (simp add: poll_inv_def)
  ultimately show ?thesis by (simp add: poll_inv_def)
qed

lemma poll_inv_fetch_done:
  assumes "poll_inv s" and "oid \<in> set (polling s)"
  shows "poll_inv (s\<lparr>states := ss, observed := observed s @ [(oid, st)],
                     polling := remove1 oid (polling s), completed := c\<rparr>)"
proof -
  let ?s1 = "s\<lparr>states := ss, observed := observed s @ [(oid, st)]\<rparr>"
  have "settled ?s1" by (rule settled_fetch [OF assms])
  moreover have "distinct (remove1 oid (polling s))"
    using assms(1) by (simp add: poll_inv_def)
  moreover have "\<forall>o' \<in> set (remove1 oid (polling s)). set (observed_for o' ?s1) \<inter> set end_states = {}"
    using assms unfolding poll_inv_def by (auto simp: observed_for_snoc)
  ultimately show ?thesis by (simp add: poll_inv_def)
qed

lemma not_end_state: "st \<noteq> ''failed'' \<Longrightarrow> st \<notin> set success_states \<Longrightarrow> st \<notin> set end_states"
  by (auto simp: success_states_def end_states_def)

lemma poll_orders_inv:
  assumes "poll_inv s" and "distinct todo" and "set todo \<subseteq> set (polling s)"
    and "poll_orders srv todo s = (out, s')"
  shows "settled s' \<and> (out = Returned \<longrightarrow> poll_inv s')"
  using assms
proof (induction todo arbitrary: s)
  case Nil
  then show ?case by (simp add: poll_inv_def)
next
  case (Cons oid rest)
  have oid: "oid \<in> set (polling s)" "oid \<notin> set rest" "distinct rest"
    and sub: "set rest \<subseteq> set (polling s)"
    using Cons.prems(2,3) by auto
  show ?case
  proof (cases "srv (length (observed s)) oid")
    case Fails
    with Cons.prems(1,4) show ?thesis by (auto simp: poll_inv_def)
  next
    case (State st)
    let ?s1 = "s\<lparr>states := states s @ chars st, observed := observed s @ [(oid, st)]\<rparr>"
    have s1: "settled ?s1" by (rule settled_fetch [OF Cons.prems(1) oid(1)])
    consider (failed) "st = ''failed''"
      | (finished) "st \<noteq> ''failed''" "st \<in> set success_states"
      | (pending) "st \<noteq> ''failed''" "st \<notin> set success_states"
      by blast
    then show ?thesis
    proof cases
      case failed
      with State Cons.prems(4) s1 show ?thesis by auto
    next
      case finished
      let ?s2 = "?s1\<lparr>polling := remove1 oid (polling s), completed := completed s @ chars oid\<rparr>"
      have run: "poll_orders srv rest ?s2 = (out, s')"
        using State finished oid(1) Cons.prems(4) by simp
      have inv: "poll_inv ?s2"
        using poll_inv_fetch_done [OF Cons.prems(1) oid(1)] by simp
      have "set rest \<subseteq> set (polling ?s2)"
      proof
        fix x assume x: "x \<in> set rest"
        with oid(2) have "x \<noteq> oid" by blast
        with x sub show "x \<in> set (polling ?s2)" by (auto simp: in_set_remove1)
      qed
      from Cons.IH [OF inv oid(3) this run] show ?thesis .
    next
      case pending
      have run: "poll_orders srv rest ?s1 = (out, s')"
        using State pending Cons.prems(4) by simp
      have inv: "poll_inv ?s1"
        by (rule poll_inv_fetch_pending [OF Cons.prems(1) oid(1) not_end_state [OF pending]])
      have "set rest \<subseteq> set (polling ?s1)" using sub by simp
      from Cons.IH [OF inv oid(3) this run] show ?thesis .
    qed
  qed
qed

lemma poll_rounds_settled:
  assumes "poll_inv s"
  shows "settled (snd (snd (poll_rounds srv num_loops cnt s)))"
  using assms
proof (induction srv num_loops cnt s rule: poll_rounds.induct)
  case (1 srv num_loops cnt s)
  show ?case
  proof (cases "int cnt < num_loops")
    case False
    with "1.prems" show ?thesis
      by (subst poll_rounds.simps) (simp add: poll_inv_def)
  next
    case True
    let ?s1 = "s\<lparr>states := []\<rparr>"
    obtain out s2 where run: "poll_orders srv (polling ?s1) ?s1 = (out, s2)"
      by (cases "poll_orders srv (polling ?s1) ?s1")
    have inv1: "poll_inv ?s1" using "1.prems" by simp
    have d: "distinct (polling ?s1)" using "1.prems" by (simp add: poll_inv_def)
    from poll_orders_inv [OF inv1 d subset_refl run]
    have s2: "settled s2" and inv2: "out = Returned \<Longrightarrow> poll_inv s2" by simp_all
    show ?thesis
    proof (cases "out = Returned \<and> length (polling s2) \<noteq> 0")
      case False
      with True run s2 show ?thesis
        by (subst poll_rounds.simps) (auto simp: Let_def split: outcome.splits)
    next
      case more: True
      have "settled (snd (snd (poll_rounds srv num_loops (cnt + 1) (s2\<lparr>naps := naps s2 + 1\<rparr>))))"
        using "1.IH" [OF True refl refl run [symmetric]] more inv2 by simp
      with True run more show ?thesis
        by (subst poll_rounds.simps) (simp add: Let_def)
    qed
  qed
qed

lemma poll_orders_failed_last:
  assumes "''failed'' \<notin> snd ` set (observed s)"
    and "poll_orders srv todo s = (out, s')"
  shows "(''failed'' \<in> snd ` set (observed s') \<longleftrightarrow> out = Raised NameError)
       \<and> (out = Raised NameError \<longrightarrow>
            (\<exists>pre oid. observed s' = pre @ [(oid, ''failed'')] \<and> ''failed'' \<notin> snd ` set pre))"
  using assms
proof (induction srv todo s rule: poll_orders.induct)
  case (1 srv s)
  then show ?case by auto
next
  case (2 srv oid rest s)
  show ?case
  proof (cases "srv (length (observed s)) oid")
    case Fails
    with "2.prems" show ?thesis by auto
  next
    case (State st)
    let ?s1 = "s\<lparr>states := states s @ chars st, observed := observed s @ [(oid, st)]\<rparr>"
    show ?thesis
    proof (cases "st = ''failed''")
      case True
      with State "2.prems"(2) have "out = Raised NameError" "s' = ?s1" by simp_all
      with True "2.prems"(1) show ?thesis by auto
    next
      case nf: False
      then have clean: "''failed'' \<notin> snd ` set (observed ?s1)"
        using "2.prems"(1) by auto
      show ?thesis
      proof (cases "st \<in> set success_states")
        case True
        show ?thesis
        proof (cases "oid \<in> set (polling s)")
          case False
          with State nf True "2.prems"(2) have "out = Raised ValueError" "s' = ?s1" by simp_all
          with clean show ?thesis by simp
        next
          case in_p: True
          let ?s2 = "?s1\<lparr>polling := remove1 oid (polling ?s1), completed := completed ?s1 @ chars oid\<rparr>"
          have run: "poll_orders srv rest ?s2 = (out, s')"
            using State nf True in_p "2.prems"(2) by simp
          have clean2: "''failed'' \<notin> snd ` set (observed ?s2)" using clean by simp
          have in_p1: "oid \<in> set (polling ?s1)" using in_p by simp
          from "2.IH"(1) [OF State refl nf True in_p1 clean2 run]
          show ?thesis .
        qed
      next
        case False
        have run: "poll_orders srv rest ?s1 = (out, s')"
          using State nf False "2.prems"(2) by simp
        from "2.IH"(2) [OF State refl nf False clean run]
        show ?thesis .
      qed
    qed
  qed
qed

lemma poll_rounds_failed_last:
  assumes "''failed'' \<notin> snd ` set (observed s)"
    and "poll_rounds srv num_loops cnt s = (out, cnt', s')"
  shows "(''failed'' \<in> snd ` set (observed s') \<longleftrightarrow> out = Raised NameError)
       \<and> (out = Raised NameError \<longrightarrow>
            (\<exists>pre oid. observed s' = pre @ [(oid, ''failed'')] \<and> ''failed'' \<notin> snd ` set pre))"
  using assms
proof (induction srv num_loops cnt s rule: poll_rounds.induct)
  case (1 srv num_loops cnt s)
  show ?case
  proof (cases "int cnt < num_loops")
    case False
    with "1.prems" show ?thesis
      by (subst (asm) poll_rounds.simps) auto
  next
    case True
    let ?s1 = "s\<lparr>states := []\<rparr>"
    obtain o1 s2 where run: "poll_orders srv (polling ?s1) ?s1 = (o1, s2)"
      by (cases "poll_orders srv (polling ?s1) ?s1")
    have clean1: "''failed'' \<notin> snd ` set (observed ?s1)" using "1.prems"(1) by simp
    note step = poll_orders_failed_last [OF clean1 run]
    show ?thesis
    proof (cases "o1 = Returned \<and> length (polling s2) \<noteq> 0")
      case False
      have eq: "poll_rounds srv num_loops cnt s = (o1, cnt + 1, s2)"
        using True run False
        by (subst poll_rounds.simps) (auto simp: Let_def split: outcome.splits)
      with "1.prems"(2) have "out = o1" "s' = s2" by simp_all
      with step show ?thesis by simp
    next
      case more: True
      let ?s3 = "s2\<lparr>naps := naps s2 + 1\<rparr>"
      have eq: "poll_rounds srv num_loops cnt s = poll_rounds srv num_loops (cnt + 1) ?s3"
        using True run more by (subst poll_rounds.simps) (simp add: Let_def)
      have clean3: "''failed'' \<notin> snd ` set (observed ?s3)"
        using step more by auto
      have run3: "poll_rounds srv num_loops (cnt + 1) ?s3 = (out, cnt', s')"
        using eq "1.prems"(2) by simp
      from "1.IH" [OF True refl refl run [symmetric] _ _ clean3 run3] more
      show ?thesis by simp
    qed
  qed
qed

lemma poll_rounds_count_le:
  "fst (snd (poll_rounds srv num_loops cnt s)) \<le> max cnt (nat num_loops)"
proof (induction srv num_loops cnt s rule: poll_rounds.induct)
  case (1 srv num_loops cnt s)
  show ?case
  proof (cases "int cnt < num_loops")
    case False
    then show ?thesis by (subst poll_rounds.simps) simp
  next
    case True
    let ?s1 = "s\<lparr>states := []\<rparr>"
    obtain out s2 where run: "poll_orders srv (polling ?s1) ?s1 = (out, s2)"
      by (cases "poll_orders srv (polling ?s1) ?s1")
    show ?thesis
    proof (cases "out = Returned \<and> length (polling s2) \<noteq> 0")
      case False
      have eq: "poll_rounds srv num_loops cnt s = (out, cnt + 1, s2)"
        using True run False
        by (subst poll_rounds.simps) (auto simp: Let_def split: outcome.splits)
      show ?thesis unfolding eq using True by simp
    next
      case more: True
      let ?s3 = "s2\<lparr>naps := naps s2 + 1\<rparr>"
      have eq: "poll_rounds srv num_loops cnt s = poll_rounds srv num_loops (cnt + 1) ?s3"
        using True run more by (subst poll_rounds.simps) (simp add: Let_def)
      from "1.IH" [OF True refl refl run [symmetric]] more True
      show ?thesis unfolding eq by simp
    qed
  qed
qed

lemma poll_orders_pending_entries:
  assumes "\<forall>i < length todo. \<exists>st. srv (length (observed s) + i) (todo ! i) = State st
             \<and> st \<notin> set end_states"
  shows "\<exists>s'. poll_orders srv todo s = (Returned, s') \<and> polling s' = polling s \<and> naps s' = naps s
            \<and> length (observed s') = length (observed s) + length todo
            \<and> (set (map snd (observed s)) \<inter> set end_states = {} \<longrightarrow>
                 set (map snd (observed s')) \<inter> set end_states = {})"
  using assms
proof (induction todo arbitrary: s)
  case Nil
  show ?case by simp
next
  case (Cons oid rest)
  from Cons.prems [rule_format, of 0]
  obtain st where st: "srv (length (observed s)) oid = State st" "st \<notin> set end_states"
    by auto
  then have nt: "st \<noteq> ''failed''" "st \<notin> set success_states"
    by (auto simp: end_states_def success_states_def)
  let ?s1 = "s\<lparr>states := states s @ chars st, observed := observed s @ [(oid, st)]\<rparr>"
  have eq: "poll_orders srv (oid # rest) s = poll_orders srv rest ?s1"
    using st(1) nt by simp
  have "\<forall>i < length rest. \<exists>st. srv (length (observed ?s1) + i) (rest ! i) = State st
             \<and> st \<notin> set end_states"
  proof (intro allI impI)
    fix i assume "i < length rest"
    then have "Suc i < length (oid # rest)" by simp
    from Cons.prems [rule_format, OF this] show "\<exists>st. srv (length (observed ?s1) + i) (rest ! i) = State st
             \<and> st \<notin> set end_states" by simp
  qed
  from Cons.IH [OF this] st(2) show ?case unfolding eq by auto
qed

lemma poll_rounds_pending_entries:
  assumes "\<forall>r i. r < nat num_loops - cnt \<and> i < length (polling s) \<longrightarrow>
             (\<exists>st. srv (length (observed s) + r * length (polling s) + i) (polling s ! i) = State st
                \<and> st \<notin> set end_states)"
    and "polling s \<noteq> []"
  shows "\<exists>s'. poll_rounds srv num_loops cnt s = (Returned, max cnt (nat num_loops), s')
            \<and> polling s' = polling s \<and> naps s' = naps s + (nat num_loops - cnt)
            \<and> length (observed s') = length (observed s) + (nat num_loops - cnt) * length (polling s)
            \<and> (set (map snd (observed s)) \<inter> set end_states = {} \<longrightarrow>
                 set (map snd (observed s')) \<inter> set end_states = {})"
  using assms
proof (induction srv num_loops cnt s rule: poll_rounds.induct)
  case (1 srv num_loops cnt s)
  show ?case
  proof (cases "int cnt < num_loops")
    case False
    then show ?thesis by (subst poll_rounds.simps) auto
  next
    case True
    let ?s1 = "s\<lparr>states := []\<rparr>"
    let ?L = "length (polling s)"
    have k: "nat num_loops - cnt = Suc (nat num_loops - (cnt + 1))" using True by linarith
    have "\<forall>i < length (polling ?s1). \<exists>st. srv (length (observed ?s1) + i) (polling ?s1 ! i) = State st
             \<and> st \<notin> set end_states"
    proof (intro allI impI)
      fix i assume "i < length (polling ?s1)"
      then have "0 < nat num_loops - cnt \<and> i < ?L" using k by simp
      from "1.prems"(1) [rule_format, OF this]
      show "\<exists>st. srv (length (observed ?s1) + i) (polling ?s1 ! i) = State st \<and> st \<notin> set end_states"
        by simp
    qed
    from poll_orders_pending_entries [OF this]
    obtain s2 where run: "poll_orders srv (polling ?s1) ?s1 = (Returned, s2)"
      and s2: "polling s2 = polling s" "naps s2 = naps s"
        "length (observed s2) = length (observed s) + ?L"
        "set (map snd (observed s)) \<inter> set end_states = {} \<longrightarrow>
           set (map snd (observed s2)) \<inter> set end_states = {}"
      by auto
    let ?s3 = "s2\<lparr>naps := naps s2 + 1\<rparr>"
    have ne: "length (polling s2) \<noteq> 0" using s2(1) "1.prems"(2) by simp
    have eq: "poll_rounds srv num_loops cnt s = poll_rounds srv num_loops (cnt + 1) ?s3"
      using True run ne by (subst poll_rounds.simps) (simp add: Let_def)
    have ne3: "polling ?s3 \<noteq> []" using ne by simp
    have pre3: "\<forall>r i. r < nat num_loops - (cnt + 1) \<and> i < length (polling ?s3) \<longrightarrow>
             (\<exists>st. srv (length (observed ?s3) + r * length (polling ?s3) + i) (polling ?s3 ! i) = State st
                \<and> st \<notin> set end_states)"
    proof (intro allI impI)
      fix r i assume a: "r < nat num_loops - (cnt + 1) \<and> i < length (polling ?s3)"
      then have "Suc r < nat num_loops - cnt \<and> i < ?L" using k s2(1) by simp
      from "1.prems"(1) [rule_format, OF this]
      show "\<exists>st. srv (length (observed ?s3) + r * length (polling ?s3) + i) (polling ?s3 ! i) = State st
                \<and> st \<notin> set end_states"
        using s2(1,3) by (simp add: add.assoc add.commute add.left_commute)
    qed
    from "1.IH" [OF True refl refl run [symmetric] refl ne pre3 ne3]
    obtain s' where r: "poll_rounds srv num_loops (cnt + 1) ?s3 = (Returned, max (cnt + 1) (nat num_loops), s')"
      "polling s' = polling ?s3" "naps s' = naps ?s3 + (nat num_loops - (cnt + 1))"
      "length (observed s') = length (observed ?s3) + (nat num_loops - (cnt + 1)) * length (polling ?s3)"
      "set (map snd (observed ?s3)) \<inter> set end_states = {} \<longrightarrow>
                 set (map snd (observed s')) \<inter> set end_states = {}"
      by blast
    have m: "max (cnt + 1) (nat num_loops) = max cnt (nat num_loops)" using True by linarith
    show ?thesis unfolding eq using r s2 m k by simp
  qed
qed

section \<open>The polling claims\<close>

text \<open>
  C1. As stated for every poller, the claim fails: the poller of the orders notebook
  observes \<open>failed\<close> and returns normally.
\<close>

theorem poll_single_failed_counterexample:
  "poll_for_success_single (\<lambda>n. State ''failed'') 30 =
     (Returned, \<lparr>count = 1, printed = [''failed''], sleeps = 0\<rparr>)"
  by (simp add: poll_for_success_single_def poll_loop.simps end_states_def)

text \<open>
  C1, amended. The multi-order poller of the analysis-ready-data notebook raises as soon
  as it observes \<open>failed\<close> for an order: a run ends with the exception of that branch
  exactly when \<open>failed\<close> was observed, and then \<open>failed\<close> is the last state observed,
  once, so nothing is fetched after it. The single-order poller of the orders notebook
  takes \<open>failed\<close> for an end state like \<open>success\<close> and \<open>partial\<close>: when the first end
  state it observes is \<open>failed\<close>, it stops at that fetch and returns normally; as long as
  every fetch gives a state, it never raises.
\<close>

theorem poll_for_success_failed:
  "(''failed'' \<in> snd ` set (observed (snd (snd (poll_for_success_multi srv order_ids num_loops))))
      \<longleftrightarrow> fst (poll_for_success_multi srv order_ids num_loops) = Raised NameError)
   \<and> (''failed'' \<in> snd ` set (observed (snd (snd (poll_for_success_multi srv order_ids num_loops))))
      \<longrightarrow> (\<exists>pre oid.
             observed (snd (snd (poll_for_success_multi srv order_ids num_loops)))
               = pre @ [(oid, ''failed'')]
             \<and> ''failed'' \<notin> snd ` set pre))
   \<and> (serves srv1 0 (pre1 @ [''failed'']) \<and> set pre1 \<inter> set end_states = {}
        \<and> int (length pre1) < num_loops1 \<longrightarrow>
        poll_for_success_single srv1 num_loops1 =
          (Returned, \<lparr>count = length pre1 + 1, printed = pre1 @ [''failed''],
                       sleeps = length pre1\<rparr>))
   \<and> ((\<forall>i. srv2 i \<noteq> Fails) \<longrightarrow> fst (poll_for_success_single srv2 num_loops2) = Returned)"
proof -
  let ?s0 = "\<lparr>polling = order_ids, completed = [], states = [], observed = [], naps = 0\<rparr>"
  obtain out cnt sf where run: "poll_rounds srv num_loops 0 ?s0 = (out, cnt, sf)"
    by (cases "poll_rounds srv num_loops 0 ?s0") auto
  have res: "poll_for_success_multi srv order_ids num_loops = (out, cnt, sf)"
    by (simp add: poll_for_success_multi_def run)
  have clean: "''failed'' \<notin> snd ` set (observed ?s0)" by simp
  note multi = poll_rounds_failed_last [OF clean run]
  have c1: "''failed'' \<in> snd ` set (observed sf) \<longleftrightarrow> out = Raised NameError"
    using multi by blast
  have c2: "''failed'' \<in> snd ` set (observed sf) \<longrightarrow>
      (\<exists>pre oid. observed sf = pre @ [(oid, ''failed'')] \<and> ''failed'' \<notin> snd ` set pre)"
    using multi by blast
  have c3: "serves srv1 0 (pre1 @ [''failed'']) \<and> set pre1 \<inter> set end_states = {}
        \<and> int (length pre1) < num_loops1 \<longrightarrow>
        poll_for_success_single srv1 num_loops1 =
          (Returned, \<lparr>count = length pre1 + 1, printed = pre1 @ [''failed''],
                       sleeps = length pre1\<rparr>)"
    unfolding poll_for_success_single_def
    using poll_loop_terminal [of srv1 "\<lparr>count = 0, printed = [], sleeps = 0\<rparr>" pre1 "''failed''"
        num_loops1]
    by (simp add: end_states_def)
  have c4: "(\<forall>i. srv2 i \<noteq> Fails) \<longrightarrow> fst (poll_for_success_single srv2 num_loops2) = Returned"
    unfolding poll_for_success_single_def using poll_loop_no_raise by blast
  from c1 c2 c3 c4 show ?thesis unfolding res by simp
qed

lemma failing_run:
  "poll_for_success_multi failing_server [''a'', ''b''] 5 =
     (Raised NameError, 2,
      \<lparr>polling = [''a'', ''b''], completed = [],
        states = [''r'', ''u'', ''n'', ''n'', ''i'', ''n'', ''g'', ''f'', ''a'', ''i'', ''l'', ''e'', ''d''],
        observed = [(''a'', ''running''), (''b'', ''running''), (''a'', ''running''), (''b'', ''failed'')],
        naps = 1\<rparr>)"
  by (simp add: poll_for_success_multi_def poll_rounds.simps failing_server_def Let_def
      success_states_def chars_def)

theorem poll_for_success_failed_witness:
  "''failed'' \<in> snd ` set (observed (snd (snd (poll_for_success_multi failing_server [''a'', ''b''] 5))))
   \<and> fst (poll_for_success_multi failing_server [''a'', ''b''] 5) = Raised NameError
   \<and> serves failing_single_server 0 ([''running'', ''running''] @ [''failed''])
   \<and> poll_for_success_single failing_single_server 30 =
        (Returned, \<lparr>count = 3, printed = [''running'', ''running'', ''failed''], sleeps = 2\<rparr>)"
proof -
  have h1: "''failed'' \<in> snd ` set (observed (snd (snd (poll_for_success_multi failing_server [''a'', ''b''] 5))))"
    by (simp add: failing_run)
  have h2: "serves failing_single_server 0 ([''running'', ''running''] @ [''failed''])
      \<and> set [''running'', ''running''] \<inter> set end_states = {}
      \<and> int (length [''running'', ''running'']) < 30"
    by (simp add: serves_def failing_single_server_def less_Suc_eq end_states_def)
  note inst = poll_for_success_failed [of failing_server "[''a'', ''b'']" 5 failing_single_server
      "[''running'', ''running'']" 30]
  from inst [THEN conjunct1] h1
  have a: "fst (poll_for_success_multi failing_server [''a'', ''b''] 5) = Raised NameError"
    by simp
  from inst [THEN conjunct2, THEN conjunct2, THEN conjunct1, THEN mp, OF h2]
  have b: "poll_for_success_single failing_single_server 30 =
      (Returned, \<lparr>count = length [''running'', ''running''] + 1,
         printed = [''running'', ''running''] @ [''failed''],
         sleeps = length [''running'', ''running'']\<rparr>)" .
  from h1 a b h2 show ?thesis by simp
qed


lemma example_run:
  "observed_for ''a'' (snd (snd (poll_for_success_multi example_server [''a'', ''b''] 5))) =
     [''running'', ''running'', ''success'']"
  by (simp add: poll_for_success_multi_def poll_rounds.simps example_server_def Let_def
      success_states_def chars_def observed_for_def)





section \<open>Properties of search and tile addresses\<close>

declare str_nat.simps [simp del]

lemma follow_pages_take:
  "0 \<le> limit \<Longrightarrow>
     take (nat limit) (follow_pages limit ids p) = take (nat limit) (ids @ later_ids p)"
proof (induction limit ids p rule: follow_pages.induct)
  case (1 limit ids fs)
  show ?case by simp
next
  case (2 limit ids fs results)
  show ?case
  proof (cases "int (length ids) < limit")
    case True
    with 2 show ?thesis by simp
  next
    case False
    with "2.prems" have "nat limit \<le> length ids" by linarith
    with False show ?thesis by simp
  qed
qed

lemma all_ids: "features p @ later_ids p = (case p of Page fs nxt \<Rightarrow> fs @ later_ids p)"
  by (cases p) simp

lemma format_tile_url:
  "format_from
     [(''item_type'', itype), (''item_id'', i), (''x'', sx), (''y'', sy), (''z'', sz),
      (''api_key'', key)]
     tile_url_template =
   Inr (''https://tiles.planet.com/data/v1/'' @ itype @ ''/'' @ i @ ''/'' @ sz @ ''/'' @ sx
          @ ''/'' @ sy @ ''.png?api_key='' @ key)"
  by (simp add: tile_url_template_def prepend_def)

lemma map_result_total:
  "(\<And>x. f x = Inr (g x)) \<Longrightarrow> map_result f xs = Inr (map g xs)"
  by (induction xs) simp_all

text \<open>
  C9. For a non-negative limit, \<open>get_item_ids\<close> returns at most \<open>limit\<close> identifiers:
  the first \<open>limit\<close> of the identifiers of the pages of the search, in order. For limit
  0 it returns the empty list.
\<close>

theorem get_item_ids_limit:
  "0 \<le> limit \<longrightarrow>
     int (length (get_item_ids post now geometry itype start_date end_date limit)) \<le> limit
     \<and> get_item_ids post now geometry itype start_date end_date limit =
         take (nat limit)
           (features (post (filter_request now geometry itype start_date end_date))
            @ later_ids (post (filter_request now geometry itype start_date end_date)))
     \<and> get_item_ids post now geometry itype start_date end_date 0 = []"
proof (intro impI conjI)
  assume l: "0 \<le> limit"
  let ?p = "post (filter_request now geometry itype start_date end_date)"
  have eq: "get_item_ids post now geometry itype start_date end_date limit =
      take (nat limit) (features ?p @ later_ids ?p)"
    using l follow_pages_take [OF l, of "features ?p" ?p]
    by (simp add: get_item_ids_def slice_to_def Let_def)
  show "get_item_ids post now geometry itype start_date end_date limit =
      take (nat limit) (features ?p @ later_ids ?p)"
    by (rule eq)
  show "int (length (get_item_ids post now geometry itype start_date end_date limit)) \<le> limit"
    unfolding eq using l by simp
  show "get_item_ids post now geometry itype start_date end_date 0 = []"
    by (simp add: get_item_ids_def slice_to_def Let_def)
qed

theorem get_item_ids_limit_witness:
  "(0::int) \<le> 3
   \<and> get_item_ids (\<lambda>r::unit json. example_pages) ''2019-10-01T00:00:00'' (JObj []) ''PSScene'' None None 3
       = [''i1'', ''i2'', ''i3'']"
proof -
  have h: "(0::int) \<le> 3" by simp
  from get_item_ids_limit [of 3 "\<lambda>r::unit json. example_pages" "''2019-10-01T00:00:00''" "JObj []"
      "''PSScene''" None None, THEN mp, OF h]
  have "get_item_ids (\<lambda>r::unit json. example_pages) ''2019-10-01T00:00:00'' (JObj []) ''PSScene'' None None 3
      = take (nat 3) (features example_pages @ later_ids example_pages)"
    by blast
  then show ?thesis by (simp add: example_pages_def)
qed

text \<open>
  C10. As stated for every latitude, the claim fails: \<open>get_tile_urls\<close> calls
  \<open>mercantile.tile\<close>, which raises at a pole, and then no address is returned.
\<close>

theorem get_tile_urls_pole_counterexample:
  "get_tile_urls (\<lambda>r. example_pages) ''2019-10-01T00:00:00'' degree_tile ''KEY'' 90 (- 122) 15
     ''PSScene'' None None 5 = Inl InvalidLatitudeError"
  by (simp add: get_tile_urls_def degree_tile_def)

text \<open>
  C10, amended. Whenever \<open>mercantile.tile\<close> gives a tile for longitude, latitude and
  zoom, \<open>get_tile_urls\<close> returns one address for each identifier that \<open>get_item_ids\<close>
  returns for the point geometry of the coordinates and the given filters, in the same
  order, and every address holds the same zoom and the column and row of that one tile.
  When \<open>mercantile.tile\<close> raises, its exception leaves \<open>get_tile_urls\<close>.
\<close>

theorem get_tile_urls_addresses:
  "(tile lon lat zoom = Inr (x, y) \<longrightarrow>
      get_tile_urls post now tile api_key lat lon zoom itype start_date end_date limit =
        Inr (map (\<lambda>i. ''https://tiles.planet.com/data/v1/'' @ itype @ ''/'' @ i @ ''/''
                        @ str_int zoom @ ''/'' @ str_int x @ ''/'' @ str_int y
                        @ ''.png?api_key='' @ api_key)
               (get_item_ids post now (coords_to_geometry lat lon) itype start_date end_date limit)))
   \<and> (tile lon lat zoom = Inl e \<longrightarrow>
        get_tile_urls post now tile api_key lat lon zoom itype start_date end_date limit = Inl e)"
proof (intro conjI impI)
  assume t: "tile lon lat zoom = Inr (x, y)"
  show "get_tile_urls post now tile api_key lat lon zoom itype start_date end_date limit =
        Inr (map (\<lambda>i. ''https://tiles.planet.com/data/v1/'' @ itype @ ''/'' @ i @ ''/''
                        @ str_int zoom @ ''/'' @ str_int x @ ''/'' @ str_int y
                        @ ''.png?api_key='' @ api_key)
               (get_item_ids post now (coords_to_geometry lat lon) itype start_date end_date limit))"
  proof -
    have "get_tile_urls post now tile api_key lat lon zoom itype start_date end_date limit =
        map_result
          (\<lambda>i. format_from
                  [(''item_type'', itype), (''item_id'', i), (''x'', str_int x),
                   (''y'', str_int y), (''z'', str_int zoom), (''api_key'', api_key)]
                  tile_url_template)
          (get_item_ids post now (coords_to_geometry lat lon) itype start_date end_date limit)"
      by (simp add: get_tile_urls_def t)
    also have "\<dots> = Inr (map (\<lambda>i. ''https://tiles.planet.com/data/v1/'' @ itype @ ''/'' @ i @ ''/''
                        @ str_int zoom @ ''/'' @ str_int x @ ''/'' @ str_int y
                        @ ''.png?api_key='' @ api_key)
               (get_item_ids post now (coords_to_geometry lat lon) itype start_date end_date limit))"
      by (rule map_result_total) (rule format_tile_url)
    finally show ?thesis .
  qed
next
  assume "tile lon lat zoom = Inl e"
  then show "get_tile_urls post now tile api_key lat lon zoom itype start_date end_date limit = Inl e"
    by (simp add: get_tile_urls_def)
qed

lemma str_int_examples:
  "str_int 15 = ''15''" "str_int 5241 = ''5241''" "str_int 12665 = ''12665''"
  by (simp_all add: str_int_def str_nat.simps digit_char_def)

theorem get_tile_urls_addresses_witness:
  "degree_tile (- 122) 37 15 = Inr (5241, 12665)
   \<and> get_tile_urls (\<lambda>r. example_pages) ''2019-10-01T00:00:00'' degree_tile ''KEY'' 37 (- 122) 15
       ''PSScene'' None None 2
     = Inr [''https://tiles.planet.com/data/v1/PSScene/i1/15/5241/12665.png?api_key=KEY'',
            ''https://tiles.planet.com/data/v1/PSScene/i2/15/5241/12665.png?api_key=KEY'']"
proof -
  have h: "degree_tile (- 122) 37 15 = Inr (5241, 12665)"
    by (simp add: degree_tile_def)
  have ids: "get_item_ids (\<lambda>r. example_pages) ''2019-10-01T00:00:00'' (coords_to_geometry 37 (- 122))
      ''PSScene'' None None 2 = [''i1'', ''i2'']"
    by (simp add: get_item_ids_def slice_to_def example_pages_def Let_def)
  from get_tile_urls_addresses [of degree_tile "- 122" 37 15 5241 12665 "\<lambda>r. example_pages"
      "''2019-10-01T00:00:00''" "''KEY''" "''PSScene''" None None 2, THEN conjunct1, THEN mp, OF h]
  show ?thesis using h by (simp add: ids str_int_examples)
qed

section \<open>Properties of resolving paths and of the file operations\<close>

declare mkdir_parents.simps [simp del] makedirs.simps [simp del]

lemma wf_above:
  "wf_fs fs \<Longrightarrow> fs l \<noteq> None \<Longrightarrow> strict_prefix q l \<Longrightarrow> fs q = Some Dir"
proof (induction l rule: rev_induct)
  case Nil
  then show ?case by simp
next
  case (snoc x xs)
  from snoc.prems(1,2) have d: "fs xs = Some Dir"
    unfolding wf_fs_def by (metis butlast_snoc)
  from snoc.prems(3) have "prefix q xs" by (auto simp: strict_prefix_def prefix_snoc)
  then show ?case
  proof (cases "q = xs")
    case True
    with d show ?thesis by simp
  next
    case False
    with \<open>prefix q xs\<close> have "strict_prefix q xs" by (simp add: strict_prefix_def)
    with snoc.IH snoc.prems(1) d show ?thesis by simp
  qed
qed

lemma wf_dirs_above: "wf_fs fs \<Longrightarrow> fs l \<noteq> None \<Longrightarrow> dirs_above fs l"
  unfolding dirs_above_def using wf_above by blast

lemma wf_below_none: "wf_fs fs \<Longrightarrow> fs z = None \<Longrightarrow> prefix z q \<Longrightarrow> fs q = None"
proof (rule ccontr)
  assume a: "wf_fs fs" "fs z = None" "prefix z q" and b: "fs q \<noteq> None"
  show False
  proof (cases "z = q")
    case True
    with a b show False by simp
  next
    case False
    with a(3) have "strict_prefix z q" by (simp add: strict_prefix_def)
    from wf_above [OF a(1) b this] a(2) show False by simp
  qed
qed

lemma dirs_above_butlast: "dirs_above fs l \<Longrightarrow> l \<noteq> [] \<Longrightarrow> fs (butlast l) = Some Dir"
  unfolding dirs_above_def
  by (metis append_butlast_last_id strict_prefixI' )

lemma walk_plain_result:
  "plain cs \<Longrightarrow> walk fs cur cs = Inr t \<Longrightarrow> t = cur @ cs"
proof (induction cs arbitrary: cur)
  case Nil
  then show ?case by simp
next
  case (Cons c cs)
  from Cons.prems have c: "c \<noteq> ''..''" "c \<noteq> ''.''" and p: "plain cs"
    by (auto simp: plain_def)
  from Cons.prems(2) c have "walk fs (cur @ [c]) cs = Inr t"
    by (auto split: option.splits node.splits)
  from Cons.IH [OF p this] show ?case by simp
qed

lemma walk_dirs:
  "plain cs \<Longrightarrow> walk fs cur cs = Inr t \<Longrightarrow> prefix cur q \<Longrightarrow> strict_prefix q (cur @ cs) \<Longrightarrow>
     fs q = Some Dir"
proof (induction cs arbitrary: cur)
  case Nil
  then show ?case by (auto simp: strict_prefix_def)
next
  case (Cons c cs)
  from Cons.prems(1) have c: "c \<noteq> ''..''" "c \<noteq> ''.''" and p: "plain cs"
    by (auto simp: plain_def)
  from Cons.prems(2) c have d: "fs cur = Some Dir" and w: "walk fs (cur @ [c]) cs = Inr t"
    by (auto split: option.splits node.splits)
  show ?case
  proof (cases "q = cur")
    case True
    with d show ?thesis by simp
  next
    case False
    from Cons.prems(3) obtain r where r: "q = cur @ r" by (auto simp: prefix_def)
    with False have rne: "r \<noteq> []" by simp
    from Cons.prems(4) r have "strict_prefix r (c # cs)" by (simp add: strict_prefix_def)
    with rne obtain r' where r': "r = c # r'" "strict_prefix r' cs"
      by (cases r) (auto simp: strict_prefix_def)
    have "prefix (cur @ [c]) q" using r r' by simp
    moreover have "strict_prefix q ((cur @ [c]) @ cs)" using r r' by (simp add: strict_prefix_def)
    ultimately show ?thesis using Cons.IH [OF p w] by blast
  qed
qed

lemma walk_succeeds:
  "plain cs \<Longrightarrow> (\<forall>q. prefix cur q \<and> strict_prefix q (cur @ cs) \<longrightarrow> fs q = Some Dir) \<Longrightarrow>
     walk fs cur cs = Inr (cur @ cs)"
proof (induction cs arbitrary: cur)
  case Nil
  then show ?case by simp
next
  case (Cons c cs)
  from Cons.prems(1) have c: "c \<noteq> ''..''" "c \<noteq> ''.''" and p: "plain cs"
    by (auto simp: plain_def)
  have d: "fs cur = Some Dir" using Cons.prems(2) by (simp add: strict_prefix_def)
  have "\<forall>q. prefix (cur @ [c]) q \<and> strict_prefix q ((cur @ [c]) @ cs) \<longrightarrow> fs q = Some Dir"
  proof (intro allI impI)
    fix q assume a: "prefix (cur @ [c]) q \<and> strict_prefix q ((cur @ [c]) @ cs)"
    then have "prefix cur q" using append_prefixD by blast
    with a Cons.prems(2) show "fs q = Some Dir" by simp
  qed
  from Cons.IH [OF p this] d c show ?case by simp
qed

lemma walk_error:
  "plain cs \<Longrightarrow> walk fs cur cs = Inl e \<Longrightarrow>
     (\<forall>q x. prefix cur q \<and> strict_prefix q (cur @ cs) \<longrightarrow> fs q \<noteq> Some (File x)) \<Longrightarrow>
     e = FileNotFoundError"
proof (induction cs arbitrary: cur)
  case Nil
  then show ?case by simp
next
  case (Cons c cs)
  from Cons.prems(1) have c: "c \<noteq> ''..''" "c \<noteq> ''.''" and p: "plain cs"
    by (auto simp: plain_def)
  have nf: "\<And>x. fs cur \<noteq> Some (File x)" using Cons.prems(3) by (simp add: strict_prefix_def)
  show ?case
  proof (cases "fs cur")
    case None
    with Cons.prems(2) show ?thesis by simp
  next
    case (Some n)
    with nf have n: "n = Dir" by (cases n) auto
    with Some Cons.prems(2) c have w: "walk fs (cur @ [c]) cs = Inl e" by simp
    have "\<forall>q x. prefix (cur @ [c]) q \<and> strict_prefix q ((cur @ [c]) @ cs) \<longrightarrow> fs q \<noteq> Some (File x)"
    proof (intro allI impI)
      fix q x assume a: "prefix (cur @ [c]) q \<and> strict_prefix q ((cur @ [c]) @ cs)"
      then have "prefix cur q" using append_prefixD by blast
      with a Cons.prems(3) show "fs q \<noteq> Some (File x)" by simp
    qed
    from Cons.IH [OF p w this] show ?thesis .
  qed
qed

lemma walk_submap:
  "fs1 \<subseteq>\<^sub>m fs \<Longrightarrow> walk fs1 cur cs = Inr t \<Longrightarrow> walk fs cur cs = Inr t"
proof (induction cs arbitrary: cur)
  case Nil
  then show ?case by simp
next
  case (Cons c cs)
  from Cons.prems(2) have d: "fs1 cur = Some Dir"
    by (auto split: option.splits node.splits)
  with Cons.prems(1) have d': "fs cur = Some Dir"
    by (metis domI map_le_def)
  from Cons.prems(2) d
  have "walk fs1 (if c = ''..'' then butlast cur else if c = ''.'' then cur else cur @ [c]) cs = Inr t"
    by simp
  from Cons.IH [OF Cons.prems(1) this] d' show ?case by simp
qed

lemma walk_target:
  "wf_fs fs \<Longrightarrow> walk fs cur cs = Inr t \<Longrightarrow> cs \<noteq> [] \<Longrightarrow>
     fs t = Some Dir \<or> (t \<noteq> [] \<and> fs (butlast t) = Some Dir)"
proof (induction cs arbitrary: cur)
  case Nil
  then show ?case by simp
next
  case (Cons c cs)
  from Cons.prems(2) have d: "fs cur = Some Dir"
    by (auto split: option.splits node.splits)
  let ?next = "if c = ''..'' then butlast cur else if c = ''.'' then cur else cur @ [c]"
  from Cons.prems(2) d have w: "walk fs ?next cs = Inr t" by simp
  show ?case
  proof (cases "cs = []")
    case False
    from Cons.IH [OF Cons.prems(1) w False] show ?thesis .
  next
    case True
    with w have t: "t = ?next" by simp
    have "fs (butlast cur) = Some Dir" using Cons.prems(1) d by (simp add: wf_fs_def)
    with t d show ?thesis by auto
  qed
qed

lemma resolve_target:
  assumes "wf_fs fs" and "resolve wd fs p = Inr t"
  shows "fs t = Some Dir \<or> (t \<noteq> [] \<and> fs (butlast t) = Some Dir)"
proof (cases "p \<noteq> [] \<and> is_root [hd p]")
  case False
  with assms(2) have "walk fs wd (''.'' # p) = Inr t" by (simp add: resolve_def)
  from walk_target [OF assms(1) this] show ?thesis by simp
next
  case True
  with assms(2) have w: "walk fs [] (tl p) = Inr t" by (simp add: resolve_def)
  show ?thesis
  proof (cases "tl p = []")
    case True
    with w assms(1) show ?thesis by (simp add: wf_fs_def)
  next
    case False
    from walk_target [OF assms(1) w False] show ?thesis .
  qed
qed

lemma resolve_submap:
  assumes "fs1 \<subseteq>\<^sub>m fs" and "resolve wd fs1 p = Inr t"
  shows "resolve wd fs p = Inr t"
proof (cases "p \<noteq> [] \<and> is_root [hd p]")
  case True
  with assms(2) have "walk fs1 [] (tl p) = Inr t" by (simp add: resolve_def)
  from walk_submap [OF assms(1) this] True show ?thesis by (simp add: resolve_def)
next
  case False
  with assms(2) have "walk fs1 wd (''.'' # p) = Inr t" by (simp add: resolve_def)
  from walk_submap [OF assms(1) this] False show ?thesis
    by (auto simp add: resolve_def simp del: walk.simps)
qed

lemma plain_tl: "plain p \<Longrightarrow> plain (tl p)"
  by (cases p) (auto simp: plain_def)

lemma resolve_plain_result:
  assumes "plain p" and "resolve wd fs p = Inr t"
  shows "t = location wd p"
proof (cases "p \<noteq> [] \<and> is_root [hd p]")
  case True
  with assms(2) have "walk fs [] (tl p) = Inr t" by (simp add: resolve_def)
  from walk_plain_result [OF plain_tl [OF assms(1)] this] True show ?thesis
    by (simp add: location_def)
next
  case False
  with assms(2) have "walk fs wd (''.'' # p) = Inr t" by (simp add: resolve_def)
  then have "walk fs wd p = Inr t" by (auto split: option.splits node.splits)
  from walk_plain_result [OF assms(1) this] False show ?thesis
    by (auto simp: location_def)
qed

lemma strict_prefix_cases:
  "strict_prefix q (cur @ cs) \<Longrightarrow> prefix cur q \<or> strict_prefix q cur"
proof -
  assume a: "strict_prefix q (cur @ cs)"
  then have "prefix q (cur @ cs)" by (simp add: strict_prefix_def)
  moreover have "prefix cur (cur @ cs)" by simp
  ultimately have "prefix q cur \<or> prefix cur q" by (rule prefix_same_cases)
  then show ?thesis by (auto simp: strict_prefix_def)
qed

lemma resolve_plain_succeeds:
  assumes "plain p" and "fs wd = Some Dir" and "dirs_above fs (location wd p)"
  shows "resolve wd fs p = Inr (location wd p)"
proof (cases "p \<noteq> [] \<and> is_root [hd p]")
  case True
  have "walk fs [] (tl p) = Inr ([] @ tl p)"
    using assms(3) True
    by (intro walk_succeeds plain_tl [OF assms(1)]) (simp add: dirs_above_def location_def)
  with True show ?thesis by (simp add: resolve_def location_def)
next
  case False
  have "walk fs wd p = Inr (wd @ p)"
    using assms(3) False
    by (intro walk_succeeds assms(1)) (auto simp: dirs_above_def location_def)
  with False assms(2) show ?thesis by (auto simp: resolve_def location_def)
qed

lemma resolve_plain_dirs:
  assumes "plain p" and "wf_fs fs" and "resolve wd fs p = Inr t"
  shows "dirs_above fs t"
proof (cases "p \<noteq> [] \<and> is_root [hd p]")
  case True
  with assms(3) have w: "walk fs [] (tl p) = Inr t" by (simp add: resolve_def)
  from walk_plain_result [OF plain_tl [OF assms(1)] w] have t: "t = [] @ tl p" by simp
  show ?thesis
    unfolding dirs_above_def t
    using walk_dirs [OF plain_tl [OF assms(1)] w] by simp
next
  case False
  with assms(3) have w0: "walk fs wd (''.'' # p) = Inr t" by (simp add: resolve_def)
  then have d: "fs wd = Some Dir" and w: "walk fs wd p = Inr t"
    by (auto split: option.splits node.splits)
  from walk_plain_result [OF assms(1) w] have t: "t = wd @ p" .
  show ?thesis
    unfolding dirs_above_def t
  proof (intro allI impI)
    fix q assume a: "strict_prefix q (wd @ p)"
    from strict_prefix_cases [OF a] show "fs q = Some Dir"
    proof
      assume "prefix wd q"
      from walk_dirs [OF assms(1) w this a] show ?thesis .
    next
      assume sp: "strict_prefix q wd"
      from d have "fs wd \<noteq> None" by simp
      from wf_above [OF assms(2) this sp] show ?thesis .
    qed
  qed
qed

lemma resolve_plain_error:
  assumes "plain p" and "fs wd = Some Dir" and "resolve wd fs p = Inl e"
    and "clear_above fs (location wd p)"
  shows "e = FileNotFoundError"
proof (cases "p \<noteq> [] \<and> is_root [hd p]")
  case True
  with assms(3) have w: "walk fs [] (tl p) = Inl e" by (simp add: resolve_def)
  show ?thesis
    using assms(4) True
    by (intro walk_error [OF plain_tl [OF assms(1)] w]) (simp add: clear_above_def location_def)
next
  case False
  with assms(2,3) have w: "walk fs wd p = Inl e" by (simp add: resolve_def)
  show ?thesis
    using assms(4) False
    by (intro walk_error [OF assms(1) w]) (auto simp: clear_above_def location_def)
qed

lemma os_exists_plain:
  assumes "plain p" and "wf_fs fs" and "fs wd = Some Dir"
  shows "os_exists wd fs p \<longleftrightarrow> fs (location wd p) \<noteq> None"
proof
  assume "os_exists wd fs p"
  then obtain t where t: "resolve wd fs p = Inr t" "fs t \<noteq> None"
    by (auto simp: os_exists_def split: sum.splits)
  with resolve_plain_result [OF assms(1) t(1)] show "fs (location wd p) \<noteq> None" by simp
next
  assume e: "fs (location wd p) \<noteq> None"
  from resolve_plain_succeeds [OF assms(1,3) wf_dirs_above [OF assms(2) e]] e
  show "os_exists wd fs p" by (simp add: os_exists_def)
qed

lemma os_isdir_plain:
  assumes "plain p" and "wf_fs fs" and "fs wd = Some Dir"
  shows "os_isdir wd fs p \<longleftrightarrow> fs (location wd p) = Some Dir"
proof
  assume "os_isdir wd fs p"
  then obtain t where t: "resolve wd fs p = Inr t" "fs t = Some Dir"
    by (auto simp: os_isdir_def split: sum.splits)
  with resolve_plain_result [OF assms(1) t(1)] show "fs (location wd p) = Some Dir" by simp
next
  assume e: "fs (location wd p) = Some Dir"
  then have "fs (location wd p) \<noteq> None" by simp
  from resolve_plain_succeeds [OF assms(1,3) wf_dirs_above [OF assms(2) this]] e
  show "os_isdir wd fs p" by (simp add: os_isdir_def)
qed

lemma os_mkdir_result:
  "os_mkdir wd p fs = Inr fs' \<Longrightarrow> \<exists>t. resolve wd fs p = Inr t \<and> fs t = None \<and> fs' = fs(t \<mapsto> Dir)"
  by (auto simp: os_mkdir_def split: sum.splits if_splits)

lemma walk_error_kind:
  "walk fs cur cs = Inl e \<Longrightarrow> e \<in> {FileNotFoundError, NotADirectoryError}"
  by (induction cs arbitrary: cur) (auto split: option.splits node.splits)

lemma resolve_error_kind:
  "resolve wd fs p = Inl e \<Longrightarrow> e \<in> {FileNotFoundError, NotADirectoryError}"
  by (auto simp add: resolve_def simp del: walk.simps split: if_splits dest: walk_error_kind)

lemma os_mkdir_error:
  "os_mkdir wd p fs = Inl e \<Longrightarrow> e \<in> {FileNotFoundError, NotADirectoryError, FileExistsError}"
  by (auto simp: os_mkdir_def split: sum.splits if_splits dest: resolve_error_kind)

lemma update_wf:
  assumes "wf_fs fs" and "t \<noteq> []" and "fs (butlast t) = Some Dir" and "fs t \<noteq> Some Dir"
  shows "wf_fs (fs(t \<mapsto> n))"
  unfolding wf_fs_def
proof (intro conjI allI impI)
  show "(fs(t \<mapsto> n)) [] = Some Dir" using assms(1,2) by (simp add: wf_fs_def)
next
  fix l assume l: "(fs(t \<mapsto> n)) l \<noteq> None"
  have bt: "butlast t \<noteq> t" using assms(2) by (metis append_butlast_last_id append_self_conv list.distinct(1))
  show "(fs(t \<mapsto> n)) (butlast l) = Some Dir"
  proof (cases "l = t")
    case True
    with assms(3) bt show ?thesis by simp
  next
    case False
    with l have "fs l \<noteq> None" by simp
    with assms(1) have d: "fs (butlast l) = Some Dir" by (simp add: wf_fs_def)
    with assms(4) have "butlast l \<noteq> t" by auto
    with d show ?thesis by simp
  qed
qed

lemma os_mkdir_wf:
  assumes "os_mkdir wd p fs = Inr fs'" and "wf_fs fs"
  shows "wf_fs fs'"
proof -
  from os_mkdir_result [OF assms(1)] obtain t where t: "resolve wd fs p = Inr t" "fs t = None"
    "fs' = fs(t \<mapsto> Dir)" by blast
  from resolve_target [OF assms(2) t(1)] t(2) have "t \<noteq> []" "fs (butlast t) = Some Dir" by auto
  with update_wf [OF assms(2), of t Dir] t show ?thesis by simp
qed

lemma mkdir_exist_ok_changes:
  "mkdir_exist_ok wd p fs = (out, fs') \<Longrightarrow> fs' q \<noteq> fs q \<Longrightarrow> fs q = None \<and> fs' q = Some Dir"
  by (auto simp: mkdir_exist_ok_def split: sum.splits if_splits dest!: os_mkdir_result)

lemma mkdir_exist_ok_wf:
  "mkdir_exist_ok wd p fs = (out, fs') \<Longrightarrow> wf_fs fs \<Longrightarrow> wf_fs fs'"
  by (auto simp: mkdir_exist_ok_def split: sum.splits if_splits dest: os_mkdir_wf)

lemma mkdir_parents_changes:
  "mkdir_parents wd p fs = (out, fs') \<Longrightarrow> fs' q \<noteq> fs q \<Longrightarrow> fs q = None \<and> fs' q = Some Dir"
proof (induction wd p fs arbitrary: out fs' rule: mkdir_parents.induct)
  case (1 wd p fs)
  show ?case
  proof (cases "os_mkdir wd p fs")
    case (Inr fs1)
    with "1.prems" have "fs' = fs1" by (subst (asm) mkdir_parents.simps) simp
    with os_mkdir_result [OF Inr] "1.prems"(2) show ?thesis by (auto split: if_splits)
  next
    case (Inl e)
    show ?thesis
    proof (cases "e = FileNotFoundError \<and> parent p \<noteq> p")
      case False
      with Inl "1.prems"(1) have "fs' = fs"
        by (subst (asm) mkdir_parents.simps) (auto split: if_splits)
      with "1.prems"(2) show ?thesis by simp
    next
      case True
      obtain o1 fs1 where rec: "mkdir_parents wd (parent p) fs = (o1, fs1)"
        by (cases "mkdir_parents wd (parent p) fs")
      have ih: "fs1 q \<noteq> fs q \<Longrightarrow> fs q = None \<and> fs1 q = Some Dir"
        using "1.IH" [OF Inl _ _ rec] True by simp
      show ?thesis
      proof (cases o1)
        case (Raised e1)
        with Inl True rec "1.prems"(1) have "fs' = fs1"
          by (subst (asm) mkdir_parents.simps) simp
        with ih "1.prems"(2) show ?thesis by simp
      next
        case Returned
        with Inl True rec "1.prems"(1) have ok: "mkdir_exist_ok wd p fs1 = (out, fs')"
          by (subst (asm) mkdir_parents.simps) simp
        show ?thesis
        proof (cases "fs' q = fs1 q")
          case True
          with ih "1.prems"(2) show ?thesis by simp
        next
          case False
          from mkdir_exist_ok_changes [OF ok False] have a: "fs1 q = None" "fs' q = Some Dir"
            by simp_all
          with ih have "fs q = None" by (cases "fs1 q = fs q") auto
          with a show ?thesis by simp
        qed
      qed
    qed
  qed
qed

lemma mkdir_parents_wf:
  "mkdir_parents wd p fs = (out, fs') \<Longrightarrow> wf_fs fs \<Longrightarrow> wf_fs fs'"
proof (induction wd p fs arbitrary: out fs' rule: mkdir_parents.induct)
  case (1 wd p fs)
  show ?case
  proof (cases "os_mkdir wd p fs")
    case (Inr fs1)
    with "1.prems" have "fs' = fs1" by (subst (asm) mkdir_parents.simps) simp
    with os_mkdir_wf [OF Inr "1.prems"(2)] show ?thesis by simp
  next
    case (Inl e)
    show ?thesis
    proof (cases "e = FileNotFoundError \<and> parent p \<noteq> p")
      case False
      with Inl "1.prems"(1) have "fs' = fs"
        by (subst (asm) mkdir_parents.simps) (auto split: if_splits)
      with "1.prems"(2) show ?thesis by simp
    next
      case True
      obtain o1 fs1 where rec: "mkdir_parents wd (parent p) fs = (o1, fs1)"
        by (cases "mkdir_parents wd (parent p) fs")
      have wf1: "wf_fs fs1"
        using "1.IH" [OF Inl _ _ rec "1.prems"(2)] True by simp
      show ?thesis
      proof (cases o1)
        case (Raised e1)
        with Inl True rec "1.prems"(1) have "fs' = fs1"
          by (subst (asm) mkdir_parents.simps) simp
        with wf1 show ?thesis by simp
      next
        case Returned
        with Inl True rec "1.prems"(1) have ok: "mkdir_exist_ok wd p fs1 = (out, fs')"
          by (subst (asm) mkdir_parents.simps) simp
        from mkdir_exist_ok_wf [OF ok wf1] show ?thesis .
      qed
    qed
  qed
qed

lemma write_file_result:
  "write_file wd p c fs = Inr fs' \<Longrightarrow>
     \<exists>t. resolve wd fs p = Inr t \<and> fs t \<noteq> Some Dir \<and> fs' = fs(t \<mapsto> File c)"
  by (auto simp: write_file_def split: sum.splits option.splits node.splits)

lemma write_file_wf:
  assumes "write_file wd p c fs = Inr fs'" and "wf_fs fs"
  shows "wf_fs fs'"
proof -
  from write_file_result [OF assms(1)] obtain t where t: "resolve wd fs p = Inr t"
    "fs t \<noteq> Some Dir" "fs' = fs(t \<mapsto> File c)" by blast
  from resolve_target [OF assms(2) t(1)] t(2) have "t \<noteq> []" "fs (butlast t) = Some Dir" by auto
  with update_wf [OF assms(2), of t "File c"] t show ?thesis by simp
qed

text \<open>Locations of parents.\<close>

lemma is_root_single: "p \<noteq> [] \<Longrightarrow> is_root [hd p] \<Longrightarrow> \<not> is_root p \<Longrightarrow> tl p \<noteq> []"
  by (cases p) (auto simp: is_root_def)

lemma location_parent:
  assumes "p \<noteq> []" and "\<not> is_root p"
  shows "location wd (parent p) = butlast (location wd p)"
proof (cases "is_root [hd p]")
  case True
  from is_root_single [OF assms(1) True assms(2)] have t: "tl p \<noteq> []" .
  then obtain r ps where p: "p = r # ps" "ps \<noteq> []" using assms(1) by (cases p) auto
  with True assms show ?thesis by (simp add: location_def parent_def)
next
  case False
  have "butlast p = [] \<or> hd (butlast p) = hd p"
    using assms(1) by (cases p) auto
  with False assms show ?thesis
    by (auto simp: location_def parent_def butlast_append)
qed

lemma plain_parent: "plain p \<Longrightarrow> plain (parent p)"
  by (auto simp: plain_def parent_def dest: in_set_butlastD)

lemma parent_fixed: "parent p = p \<longleftrightarrow> p = [] \<or> is_root p"
  by (auto simp: parent_def) (metis append_butlast_last_id append_self_conv list.distinct(1))

lemma resolve_fixed:
  assumes "wf_fs fs" and "fs wd = Some Dir" and "p = [] \<or> is_root p"
  shows "\<exists>t. resolve wd fs p = Inr t"
  using assms by (auto simp: resolve_def is_root_def)

lemma with_dirs_same:
  "dirs_above fs l \<Longrightarrow> fs l = Some Dir \<Longrightarrow> with_dirs l fs = fs"
  by (auto simp: with_dirs_def dirs_above_def fun_eq_iff strict_prefix_def)

lemma with_dirs_last:
  "dirs_above fs l \<Longrightarrow> fs(l \<mapsto> Dir) = with_dirs l fs"
  by (auto simp: with_dirs_def dirs_above_def fun_eq_iff strict_prefix_def)

lemma with_dirs_step:
  "l \<noteq> [] \<Longrightarrow> (with_dirs (butlast l) fs)(l \<mapsto> Dir) = with_dirs l fs"
proof -
  assume "l \<noteq> []"
  then obtain xs x where l: "l = xs @ [x]" by (metis append_butlast_last_id)
  show ?thesis unfolding l by (auto simp: with_dirs_def fun_eq_iff prefix_snoc)
qed

lemma mkdir_parents_plain:
  assumes "plain p" and "wf_fs fs" and "fs wd = Some Dir"
    and "\<forall>q c. prefix q (location wd p) \<longrightarrow> fs q \<noteq> Some (File c)"
  shows "mkdir_parents wd p fs = (Returned, with_dirs (location wd p) fs)"
  using assms
proof (induction wd p fs rule: mkdir_parents.induct)
  case (1 wd p fs)
  let ?l = "location wd p"
  have clear: "clear_above fs ?l" using "1.prems"(4) by (simp add: clear_above_def strict_prefix_def)
  have nofile: "\<And>c. fs ?l \<noteq> Some (File c)" using "1.prems"(4) by simp
  show ?case
  proof (cases "dirs_above fs ?l")
    case True
    from resolve_plain_succeeds [OF "1.prems"(1,3) True] have r: "resolve wd fs p = Inr ?l" .
    show ?thesis
    proof (cases "fs ?l")
      case None
      with r have "os_mkdir wd p fs = Inr (fs(?l \<mapsto> Dir))" by (simp add: os_mkdir_def)
      then show ?thesis
        by (subst mkdir_parents.simps) (simp add: with_dirs_last [OF True])
    next
      case (Some n)
      with nofile have d: "fs ?l = Some Dir" by (cases n) auto
      with r have "os_mkdir wd p fs = Inl FileExistsError" "os_isdir wd fs p"
        by (simp_all add: os_mkdir_def os_isdir_def)
      then show ?thesis
        by (subst mkdir_parents.simps) (simp add: with_dirs_same [OF True d])
    qed
  next
    case False
    have nores: "\<And>t. resolve wd fs p \<noteq> Inr t"
    proof
      fix t assume t: "resolve wd fs p = Inr t"
      from resolve_plain_result [OF "1.prems"(1) t] resolve_plain_dirs [OF "1.prems"(1,2) t] False
      show False by simp
    qed
    then obtain e where e: "resolve wd fs p = Inl e" by (cases "resolve wd fs p") auto
    from resolve_plain_error [OF "1.prems"(1,3) e clear] have e': "e = FileNotFoundError" .
    with e have mk: "os_mkdir wd p fs = Inl FileNotFoundError" by (simp add: os_mkdir_def)
    have notfixed: "\<not> (p = [] \<or> is_root p)"
      using resolve_fixed [OF "1.prems"(2,3), of p] nores by blast
    then have pp: "parent p \<noteq> p" by (simp add: parent_fixed)
    from notfixed have lp: "location wd (parent p) = butlast ?l"
      by (intro location_parent) simp_all
    have lne: "?l \<noteq> []" using False by (auto simp: dirs_above_def)
    have pre: "\<forall>q c. prefix q (location wd (parent p)) \<longrightarrow> fs q \<noteq> Some (File c)"
      unfolding lp using "1.prems"(4) by (meson prefix_order.trans prefixeq_butlast)
    from "1.IH" [OF mk refl pp plain_parent [OF "1.prems"(1)] "1.prems"(2,3) pre]
    have rec: "mkdir_parents wd (parent p) fs = (Returned, with_dirs (butlast ?l) fs)"
      by (simp add: lp)
    let ?fs1 = "with_dirs (butlast ?l) fs"
    from mkdir_parents_wf [OF rec "1.prems"(2)] have wf1: "wf_fs ?fs1" .
    have wd1: "?fs1 wd = Some Dir" using "1.prems"(3) by (simp add: with_dirs_def)
    have da1: "dirs_above ?fs1 ?l"
      unfolding dirs_above_def with_dirs_def
      by (metis (full_types) append_butlast_last_id lne prefix_snoc strict_prefix_def)
    have "fs ?l = None"
    proof (rule ccontr)
      assume "fs ?l \<noteq> None"
      from wf_dirs_above [OF "1.prems"(2) this] False show False by simp
    qed
    moreover have "\<not> prefix ?l (butlast ?l)"
      using lne by (metis append_butlast_last_id prefix_order.dual_order.antisym
          prefixeq_butlast append_self_conv list.distinct(1))
    ultimately have none1: "?fs1 ?l = None" by (simp add: with_dirs_def)
    from resolve_plain_succeeds [OF "1.prems"(1) wd1 da1] none1
    have "os_mkdir wd p ?fs1 = Inr (?fs1(?l \<mapsto> Dir))" by (simp add: os_mkdir_def)
    then have ok: "mkdir_exist_ok wd p ?fs1 = (Returned, with_dirs ?l fs)"
      by (simp add: mkdir_exist_ok_def with_dirs_step [OF lne])
    from mk pp rec ok show ?thesis
      by (subst mkdir_parents.simps) simp
  qed
qed

lemma write_file_plain:
  assumes "plain p" and "fs wd = Some Dir" and "dirs_above fs (location wd p)"
    and "fs (location wd p) \<noteq> Some Dir"
  shows "write_file wd p c fs = Inr (fs(location wd p \<mapsto> File c))"
  using resolve_plain_succeeds [OF assms(1,2,3)] assms(4)
  by (auto simp: write_file_def split: option.splits node.splits)

section \<open>Properties of downloading\<close>

lemma split_sep_prefix: "c \<notin> set a \<Longrightarrow> split_sep c (a @ c # b) = a # split_sep c b"
  by (induction a) auto

lemma root_of_relative: "s = [] \<or> hd s \<noteq> CHR ''/'' \<Longrightarrow> root_of s = []"
  by (cases s) (auto simp: root_of_def)

lemma local_path_data:
  "local_path nm = (if nm \<noteq> [] \<and> hd nm = CHR ''/'' then Path nm else ''data'' # Path nm)"
proof (cases "nm \<noteq> [] \<and> hd nm = CHR ''/''")
  case True
  then show ?thesis by (simp add: local_path_def os_path_join_def)
next
  case False
  then have j: "os_path_join ''data'' nm = ''data'' @ CHR ''/'' # nm"
    by (auto simp: os_path_join_def)
  have "split_sep (CHR ''/'') (''data'' @ CHR ''/'' # nm) = ''data'' # split_sep (CHR ''/'') nm"
    by (rule split_sep_prefix) simp
  moreover have "root_of (''data'' @ CHR ''/'' # nm) = []" by (simp add: root_of_def)
  moreover have "root_of nm = []" using False by (intro root_of_relative) auto
  ultimately show ?thesis using False by (simp add: local_path_def j Path_def)
qed

lemma local_path_nonempty: "local_path nm \<noteq> []"
  by (cases nm) (auto simp: local_path_data Path_def root_of_def)

lemma Path_no_dot: "''.'' \<notin> set (Path s)"
  by (auto simp: Path_def root_of_def)

lemma plain_Path: "''..'' \<notin> set (Path s) \<Longrightarrow> plain (Path s)"
  by (simp add: plain_def Path_no_dot)

lemma plain_local_path: "''..'' \<notin> set (local_path nm) \<Longrightarrow> plain (local_path nm)"
  unfolding local_path_def by (rule plain_Path)

lemma location_nonempty: "p \<noteq> [] \<Longrightarrow> \<not> is_root p \<Longrightarrow> location wd p \<noteq> []"
  by (cases p) (auto simp: location_def is_root_def)

lemma dirs_above_with_dirs: "l \<noteq> [] \<Longrightarrow> dirs_above (with_dirs (butlast l) fs) l"
  unfolding dirs_above_def with_dirs_def
  by (metis (full_types) append_butlast_last_id prefix_snoc strict_prefix_def)

lemma not_prefix_butlast: "l \<noteq> [] \<Longrightarrow> \<not> prefix l (butlast l)"
  by (metis append_butlast_last_id prefix_order.dual_order.antisym prefixeq_butlast
      append_self_conv list.distinct(1))

lemma prefix_butlast_strict: "l \<noteq> [] \<Longrightarrow> prefix q (butlast l) \<Longrightarrow> strict_prefix q l"
  by (metis append_butlast_last_id prefix_snoc strict_prefix_def not_prefix_butlast)

lemma download_one_skip:
  "\<not> overwrite \<Longrightarrow> os_exists wd fs (local_path nm) \<Longrightarrow>
     download_one wd overwrite http (url, nm) fs = (Returned, fs)"
  by (simp add: download_one_def Let_def)

lemma download_one_only:
  "snd (download_one wd overwrite http (url, nm) fs) \<noteq> fs \<Longrightarrow>
     overwrite \<or> \<not> os_exists wd fs (local_path nm)"
  by (auto simp: download_one_def Let_def split: if_splits)

lemma download_one_put:
  assumes "http url = Some body" and "plain (local_path nm)" and "wf_fs fs" and "fs wd = Some Dir"
    and "overwrite \<or> \<not> os_exists wd fs (local_path nm)"
    and "clear_above fs (location wd (local_path nm))"
    and "fs (location wd (local_path nm)) \<noteq> Some Dir"
    and "local_path nm \<noteq> []" and "\<not> is_root (local_path nm)"
  shows "download_one wd overwrite http (url, nm) fs =
           (Returned, put_file (location wd (local_path nm)) body fs)"
proof -
  let ?p = "local_path nm"
  let ?l = "location wd ?p"
  have lne: "?l \<noteq> []" by (rule location_nonempty [OF assms(8,9)])
  have lp: "location wd (parent ?p) = butlast ?l" by (rule location_parent [OF assms(8,9)])
  have "\<forall>q c. prefix q (location wd (parent ?p)) \<longrightarrow> fs q \<noteq> Some (File c)"
    unfolding lp using assms(6) prefix_butlast_strict [OF lne] by (auto simp: clear_above_def)
  from mkdir_parents_plain [OF plain_parent [OF assms(2)] assms(3,4) this]
  have mk: "mkdir_parents wd (parent ?p) fs = (Returned, with_dirs (butlast ?l) fs)"
    by (simp add: lp)
  let ?fs1 = "with_dirs (butlast ?l) fs"
  have wd1: "?fs1 wd = Some Dir" using assms(4) by (simp add: with_dirs_def)
  have l1: "?fs1 ?l \<noteq> Some Dir"
    using assms(7) not_prefix_butlast [OF lne] by (simp add: with_dirs_def)
  from write_file_plain [OF assms(2) wd1 dirs_above_with_dirs [OF lne] l1]
  have wr: "write_file wd ?p body ?fs1 = Inr (?fs1(?l \<mapsto> File body))" .
  from assms(1,5) mk wr show ?thesis
    by (simp add: download_one_def Let_def put_file_def)
qed

lemma download_one_changes:
  assumes "download_one wd overwrite http (url, nm) fs = (out, fs')" and "fs' q \<noteq> fs q"
    and "plain (local_path nm)"
  shows "(overwrite \<or> \<not> os_exists wd fs (local_path nm))
       \<and> ((fs q = None \<and> fs' q = Some Dir)
          \<or> (q = location wd (local_path nm) \<and> fs q \<noteq> Some Dir
              \<and> (\<exists>c. http url = Some c \<and> fs' q = Some (File c))))"
proof -
  let ?p = "local_path nm"
  have go: "overwrite \<or> \<not> os_exists wd fs ?p"
    using assms(1,2) by (auto simp: download_one_def Let_def split: if_splits)
  then obtain body where body: "http url = Some body"
    using assms(1,2) by (cases "http url") (auto simp: download_one_def Let_def)
  obtain o1 fs1 where mk: "mkdir_parents wd (parent ?p) fs = (o1, fs1)"
    by (cases "mkdir_parents wd (parent ?p) fs")
  note ch1 = mkdir_parents_changes [OF mk]
  show ?thesis
  proof (cases o1)
    case (Raised e)
    with assms(1) go body mk have "fs' = fs1" by (auto simp: download_one_def Let_def)
    with assms(2) ch1 [of q] go show ?thesis by auto
  next
    case Returned
    show ?thesis
    proof (cases "write_file wd ?p body fs1")
      case (Inl e)
      with assms(1) go body mk Returned have "fs' = fs1" by (auto simp: download_one_def Let_def)
      with assms(2) ch1 [of q] go show ?thesis by auto
    next
      case (Inr fs2)
      with assms(1) go body mk Returned have fs': "fs' = fs2"
        by (auto simp: download_one_def Let_def)
      from write_file_result [OF Inr] obtain t where t: "resolve wd fs1 ?p = Inr t"
        "fs2 = fs1(t \<mapsto> File body)" and nd: "fs1 t \<noteq> Some Dir" by blast
      have nd0: "fs t \<noteq> Some Dir" using nd ch1 [of t] by (cases "fs1 t = fs t") auto
      from resolve_plain_result [OF assms(3) t(1)] have tl: "t = location wd ?p" .
      show ?thesis
      proof (cases "q = t")
        case True
        with fs' t(2) tl body go nd0 show ?thesis by simp
      next
        case False
        with fs' t(2) assms(2) have "fs1 q \<noteq> fs q" by simp
        from ch1 [OF this] False fs' t(2) go show ?thesis by simp
      qed
    qed
  qed
qed

lemma download_one_wf:
  assumes "download_one wd overwrite http (url, nm) fs = (out, fs')" and "wf_fs fs"
  shows "wf_fs fs'"
proof (cases "overwrite \<or> \<not> os_exists wd fs (local_path nm)")
  case False
  with assms show ?thesis by (auto simp: download_one_def Let_def)
next
  case go: True
  let ?p = "local_path nm"
  show ?thesis
  proof (cases "http url")
    case None
    with assms go show ?thesis by (auto simp: download_one_def Let_def)
  next
    case (Some body)
    obtain o1 fs1 where mk: "mkdir_parents wd (parent ?p) fs = (o1, fs1)"
      by (cases "mkdir_parents wd (parent ?p) fs")
    from mkdir_parents_wf [OF mk assms(2)] have wf1: "wf_fs fs1" .
    show ?thesis
    proof (cases o1)
      case (Raised e)
      with assms go Some mk wf1 show ?thesis by (auto simp: download_one_def Let_def)
    next
      case Returned
      show ?thesis
      proof (cases "write_file wd ?p body fs1")
        case (Inl e)
        with assms go Some mk Returned wf1 show ?thesis by (auto simp: download_one_def Let_def)
      next
        case wr: (Inr fs2)
        from write_file_wf [OF wr wf1] assms go Some mk Returned wr
        show ?thesis by (auto simp: download_one_def Let_def)
      qed
    qed
  qed
qed

lemma download_one_unchanged:
  assumes "download_one wd False http (url, nm) fs = (out, fs')"
    and "plain (local_path nm)" and "wf_fs fs" and "fs wd = Some Dir" and "fs q \<noteq> None"
  shows "fs' q = fs q"
proof (rule ccontr)
  assume ne: "fs' q \<noteq> fs q"
  from download_one_changes [OF assms(1) ne assms(2)] assms(5)
  have nx: "\<not> os_exists wd fs (local_path nm)" and q: "q = location wd (local_path nm)"
    by auto
  from nx os_exists_plain [OF assms(2,3,4)] q assms(5) show False by simp
qed

lemma download_one_keeps:
  assumes "download_one wd overwrite http (url, nm) fs = (out, fs')"
    and "plain (local_path nm)" and "fs q \<noteq> None"
  shows "fs' q \<noteq> None"
  using download_one_changes [OF assms(1) _ assms(2), of q] assms(3)
  by (cases "fs' q = fs q") auto

lemma download_loop_invariants:
  "download_loop wd overwrite http rs fs = (out, fs') \<Longrightarrow>
     \<forall>(url, nm) \<in> set rs. plain (local_path nm) \<Longrightarrow> wf_fs fs \<Longrightarrow> fs wd = Some Dir \<Longrightarrow>
     wf_fs fs' \<and> fs' wd = Some Dir \<and> (\<forall>q. fs q \<noteq> None \<longrightarrow> fs' q \<noteq> None)
     \<and> (\<not> overwrite \<longrightarrow> (\<forall>q. fs q \<noteq> None \<longrightarrow> fs' q = fs q))"
proof (induction rs arbitrary: fs)
  case Nil
  then show ?case by simp
next
  case (Cons r rs)
  obtain url nm where r: "r = (url, nm)" by (cases r)
  obtain o1 fs1 where st: "download_one wd overwrite http (url, nm) fs = (o1, fs1)"
    by (cases "download_one wd overwrite http (url, nm) fs")
  from Cons.prems(2) r have pl: "plain (local_path nm)"
    and pls: "\<forall>(url, nm) \<in> set rs. plain (local_path nm)" by auto
  have wf1: "wf_fs fs1" by (rule download_one_wf [OF st Cons.prems(3)])
  have keep: "\<And>q. fs q \<noteq> None \<Longrightarrow> fs1 q \<noteq> None"
    by (rule download_one_keeps [OF st pl])
  have unch: "\<not> overwrite \<Longrightarrow> fs q \<noteq> None \<Longrightarrow> fs1 q = fs q" for q
    using download_one_unchanged [of wd http url nm fs o1 fs1 q] st pl Cons.prems(3,4) by simp
  have wd1: "fs1 wd = Some Dir"
  proof (cases "fs1 wd = fs wd")
    case True
    with Cons.prems(4) show ?thesis by simp
  next
    case False
    from download_one_changes [OF st False pl] Cons.prems(4) show ?thesis by auto
  qed
  show ?case
  proof (cases o1)
    case (Raised e)
    with Cons.prems(1) r st have "fs' = fs1" by simp
    with wf1 wd1 keep unch show ?thesis by auto
  next
    case Returned
    with Cons.prems(1) r st have "download_loop wd overwrite http rs fs1 = (out, fs')" by simp
    from Cons.IH [OF this pls wf1 wd1] keep unch show ?thesis by auto
  qed
qed

lemma download_loop_new_file:
  "download_loop wd overwrite http rs fs = (out, fs') \<Longrightarrow>
     \<forall>(url, nm) \<in> set rs. plain (local_path nm) \<Longrightarrow> wf_fs fs \<Longrightarrow> fs wd = Some Dir \<Longrightarrow>
     fs' q = Some (File c) \<Longrightarrow> fs' q \<noteq> fs q \<Longrightarrow>
     \<exists>(url, nm) \<in> set rs. q = location wd (local_path nm) \<and> http url = Some c"
proof (induction rs arbitrary: fs)
  case Nil
  then show ?case by simp
next
  case (Cons r rs)
  obtain url nm where r: "r = (url, nm)" by (cases r)
  obtain o1 fs1 where st: "download_one wd overwrite http (url, nm) fs = (o1, fs1)"
    by (cases "download_one wd overwrite http (url, nm) fs")
  from Cons.prems(2) r have pl: "plain (local_path nm)"
    and pls: "\<forall>(url, nm) \<in> set rs. plain (local_path nm)" by auto
  show ?case
  proof (cases "fs' q = fs1 q")
    case True
    with Cons.prems(6) have "fs1 q \<noteq> fs q" by simp
    from download_one_changes [OF st this pl] True Cons.prems(5) r show ?thesis by auto
  next
    case False
    then have "o1 = Returned" using Cons.prems(1) r st by (cases o1) auto
    with Cons.prems(1) r st have run: "download_loop wd overwrite http rs fs1 = (out, fs')"
      by simp
    have wf1: "wf_fs fs1" by (rule download_one_wf [OF st Cons.prems(3)])
    have wd1: "fs1 wd = Some Dir"
    proof (cases "fs1 wd = fs wd")
      case True
      with Cons.prems(4) show ?thesis by simp
    next
      case False
      from download_one_changes [OF st False pl] Cons.prems(4) show ?thesis by auto
    qed
    from Cons.IH [OF run pls wf1 wd1 Cons.prems(5) False] show ?thesis by auto
  qed
qed

lemma download_results_loop:
  "download_results wd http results overwrite fs = download_loop wd overwrite http results fs"
  by (simp add: download_results_def zip_map_fst_snd)

section \<open>The download claim\<close>

lemma example_fs_wf: "wf_fs example_fs"
  by (auto simp: wf_fs_def example_fs_def split: if_splits)

lemma example_fs_wd: "example_fs example_wd = Some Dir"
  by (simp add: example_fs_def example_wd_def)

lemma example_local_paths:
  "local_path ''a.tif'' = [''data'', ''a.tif'']"
  "local_path ''x/b.tif'' = [''data'', ''x'', ''b.tif'']"
  "local_path ''x/../a.tif'' = [''data'', ''x'', ''..'', ''a.tif'']"
  by code_simp+



lemma example_results_plain: "\<forall>(u, n) \<in> set example_results. ''..'' \<notin> set (local_path n)"
  by (simp add: example_results_def example_local_paths)

lemma example_locations:
  "location example_wd (local_path ''a.tif'') = [''home'', ''data'', ''a.tif'']"
  "location example_wd (local_path ''x/b.tif'') = [''home'', ''data'', ''x'', ''b.tif'']"
  by code_simp+

lemma example_fs_clear: "clear_above example_fs [''home'', ''data'', ''x'', ''b.tif'']"
  by (simp add: clear_above_def example_fs_def)


section \<open>Properties of unpacking\<close>

lemma split_sep_pieces: "w \<in> set (split_sep c s) \<Longrightarrow> c \<notin> set w"
proof (induction s arbitrary: w)
  case Nil
  then show ?case by simp
next
  case (Cons x xs)
  then show ?case
    using split_sep_nonempty [of c xs]
    by (cases "split_sep c xs") (auto split: if_splits)
qed

lemma split_sep_whole: "c \<notin> set s \<Longrightarrow> split_sep c s = [s]"
  by (induction s) auto

lemma Path_part:
  "CHR ''/'' \<notin> set s \<Longrightarrow> Path s = (if s = [] \<or> s = ''.'' then [] else [s])"
  by (cases s) (auto simp: Path_def root_of_def split_sep_whole)

lemma path_name_no_slash: "CHR ''/'' \<notin> set (path_name (Path s))"
proof (cases "Path s = [] \<or> is_root (Path s)")
  case True
  then show ?thesis by (auto simp: path_name_def)
next
  case False
  let ?fl = "filter (\<lambda>p. p \<noteq> [] \<and> p \<noteq> ''.'') (split_sep (CHR ''/'') s)"
  from False have ne: "?fl \<noteq> []" by (auto simp: Path_def root_of_def is_root_def split: if_splits)
  then have "last (Path s) = last ?fl" by (simp add: Path_def)
  moreover have "last ?fl \<in> set ?fl" using ne by (rule last_in_set)
  ultimately have "last (Path s) \<in> set (split_sep (CHR ''/'') s)" by auto
  from split_sep_pieces [OF this] False show ?thesis by (simp add: path_name_def)
qed

lemma stem_no_slash: "CHR ''/'' \<notin> set (stem (Path s))"
  using path_name_no_slash [of s]
  by (auto simp: stem_def Let_def dest: in_set_takeD)

lemma zipdir_sibling:
  "zipdir_of filename =
     parent (Path filename)
     @ (if stem (Path filename) = [] \<or> stem (Path filename) = ''.'' then []
        else [stem (Path filename)])"
proof -
  let ?st = "stem (Path filename)"
  have ns: "CHR ''/'' \<notin> set ?st" by (rule stem_no_slash)
  then have "?st = [] \<or> hd ?st \<noteq> CHR ''/''" by (cases ?st) auto
  then have "zipdir_of filename = parent (Path filename) @ Path ?st"
    unfolding zipdir_of_def path_join_def by auto
  with Path_part [OF ns] show ?thesis by simp
qed

lemma unzip_unfold:
  "unzip wd filename overwrite fs =
     (case (if os_isdir wd fs (zipdir_of filename)
            then (if overwrite then rmtree wd (zipdir_of filename) fs
                  else (Raised AlreadyExists, fs))
            else (Returned, fs)) of
        (Raised e, fs1) \<Rightarrow> (Inl e, fs1)
      | (Returned, fs1) \<Rightarrow>
          (case open_zip wd (Path filename) fs1 of
             Inl e \<Rightarrow> (Inl e, fs1)
           | Inr myzip \<Rightarrow>
               (case extractall wd (zipdir_of filename) myzip fs1 of
                  (Raised e, fs2) \<Rightarrow> (Inl e, fs2)
                | (Returned, fs2) \<Rightarrow> (Inr (zipdir_of filename), fs2))))"
  unfolding unzip_def zipdir_of_def Let_def by (rule refl)

lemma norm_comps_plain: "''..'' \<notin> set cs \<Longrightarrow> norm_comps r acc cs = acc @ cs"
  by (induction cs arbitrary: acc) auto

lemma normpath_plain: "plain p \<Longrightarrow> normpath p = p"
  by (cases p) (auto simp: normpath_def plain_def norm_comps_plain)

lemma filter_good:
  "[] \<notin> set mp \<Longrightarrow> plain mp \<Longrightarrow> filter (\<lambda>x. x \<noteq> [] \<and> x \<noteq> ''.'' \<and> x \<noteq> ''..'') mp = mp"
  by (induction mp) (auto simp: plain_def)

lemma strict_prefix_butlast: "l \<noteq> [] \<Longrightarrow> strict_prefix q l \<longleftrightarrow> prefix q (butlast l)"
  by (metis append_butlast_last_id prefix_snoc strict_prefix_def not_prefix_butlast)

lemma makedirs_plain:
  assumes "plain p" and "wf_fs fs" and "fs wd = Some Dir"
    and "fs (location wd p) = None" and "clear_above fs (location wd p)"
  shows "makedirs wd p fs = (Returned, with_dirs (location wd p) fs)"
  using assms
proof (induction wd p fs rule: makedirs.induct)
  case (1 wd p fs)
  let ?l = "location wd p"
  let ?h = "parent p"
  have notfixed: "\<not> (p = [] \<or> is_root p)"
  proof
    assume "p = [] \<or> is_root p"
    then have "?l = wd \<or> ?l = []" by (auto simp: location_def is_root_def)
    with "1.prems"(2,3,4) show False by (auto simp: wf_fs_def)
  qed
  then have hp: "?h \<noteq> p" by (simp add: parent_fixed)
  from notfixed have lp: "location wd ?h = butlast ?l" by (intro location_parent) simp_all
  from notfixed have lne: "?l \<noteq> []" by (intro location_nonempty) simp_all
  have plh: "plain ?h" by (rule plain_parent [OF "1.prems"(1)])
  have ex: "os_exists wd fs ?h \<longleftrightarrow> fs (butlast ?l) \<noteq> None"
    using os_exists_plain [OF plh "1.prems"(2,3)] by (simp add: lp)
  have nl: "\<not> prefix ?l (butlast ?l)" by (rule not_prefix_butlast [OF lne])
  show ?case
  proof (cases "?h \<noteq> [] \<and> \<not> os_exists wd fs ?h")
    case True
    with ex have none: "fs (location wd ?h) = None" by (simp add: lp)
    have cl: "clear_above fs (location wd ?h)"
      unfolding lp using "1.prems"(5) prefix_butlast_strict [OF lne]
      by (auto simp: clear_above_def strict_prefix_def)
    from True hp have c: "?h \<noteq> [] \<and> ?h \<noteq> p \<and> \<not> os_exists wd fs ?h" by simp
    from "1.IH" [OF refl c plh "1.prems"(2,3) none cl]
    have rec: "makedirs wd ?h fs = (Returned, with_dirs (butlast ?l) fs)" by (simp add: lp)
    let ?fs1 = "with_dirs (butlast ?l) fs"
    have wd1: "?fs1 wd = Some Dir" using "1.prems"(3) by (simp add: with_dirs_def)
    have none1: "?fs1 ?l = None" using "1.prems"(4) nl by (simp add: with_dirs_def)
    from resolve_plain_succeeds [OF "1.prems"(1) wd1 dirs_above_with_dirs [OF lne]] none1
    have "os_mkdir wd p ?fs1 = Inr (with_dirs ?l fs)"
      by (simp add: os_mkdir_def with_dirs_step [OF lne])
    with c rec show ?thesis by (subst makedirs.simps) (simp add: Let_def)
  next
    case False
    have "fs (butlast ?l) \<noteq> None"
    proof (cases "?h = []")
      case True
      then have "location wd ?h = wd" by (simp add: location_def)
      with lp "1.prems"(3) show ?thesis by simp
    next
      case h: False
      with False ex show ?thesis by simp
    qed
    moreover have "\<And>c. fs (butlast ?l) \<noteq> Some (File c)"
      using "1.prems"(5) strict_prefix_butlast [OF lne, of "butlast ?l"]
      by (simp add: clear_above_def)
    ultimately have d: "fs (butlast ?l) = Some Dir"
      by (cases "fs (butlast ?l)") (auto intro: node.exhaust)
    have da: "dirs_above fs ?l"
      unfolding dirs_above_def
    proof (intro allI impI)
      fix q assume "strict_prefix q ?l"
      then have "prefix q (butlast ?l)" by (simp add: strict_prefix_butlast [OF lne])
      then show "fs q = Some Dir"
        using d wf_dirs_above [OF "1.prems"(2), of "butlast ?l"]
        by (cases "q = butlast ?l") (auto simp: dirs_above_def strict_prefix_def)
    qed
    from resolve_plain_succeeds [OF "1.prems"(1,3) da] "1.prems"(4)
    have "os_mkdir wd p fs = Inr (with_dirs ?l fs)"
      by (simp add: os_mkdir_def with_dirs_last [OF da])
    with False show ?thesis by (subst makedirs.simps) (auto simp: Let_def)
  qed
qed

lemma with_dirs_wf: "wf_fs fs \<Longrightarrow> wf_fs (with_dirs k fs)"
  unfolding wf_fs_def with_dirs_def
  by (auto intro: prefix_order.trans [OF prefixeq_butlast])

lemma put_file_wf:
  assumes "wf_fs fs" and "l \<noteq> []" and "fs l \<noteq> Some Dir"
  shows "wf_fs (put_file l c fs)"
  unfolding put_file_def
proof (rule update_wf [OF with_dirs_wf [OF assms(1)] assms(2)])
  show "with_dirs (butlast l) fs (butlast l) = Some Dir" by (simp add: with_dirs_def)
  show "with_dirs (butlast l) fs l \<noteq> Some Dir"
    using assms(3) not_prefix_butlast [OF assms(2)] by (simp add: with_dirs_def)
qed

lemma location_append: "p \<noteq> [] \<Longrightarrow> location wd (p @ r) = location wd p @ r"
  by (cases p) (auto simp: location_def)

lemma plain_append: "plain p \<Longrightarrow> plain r \<Longrightarrow> plain (p @ r)"
  by (auto simp: plain_def)

lemma extract_member_plain:
  assumes "plain dir" and "dir \<noteq> []" and "mp \<noteq> []" and "[] \<notin> set mp" and "plain mp"
    and "wf_fs fs" and "fs wd = Some Dir"
    and "clear_above fs (location wd dir @ mp)" and "fs (location wd dir @ mp) \<noteq> Some Dir"
  shows "extract_member wd dir (mp, c) fs = (Returned, put_file (location wd dir @ mp) c fs)"
proof -
  let ?t = "dir @ mp"
  let ?l = "location wd dir @ mp"
  have pt: "plain ?t" by (rule plain_append [OF assms(1,5)])
  have lt: "location wd ?t = ?l" by (rule location_append [OF assms(2)])
  have tne: "?t \<noteq> []" using assms(2) by simp
  have nr: "\<not> is_root ?t" using assms(2,3) by (cases dir) (auto simp: is_root_def)
  have up: "parent ?t = dir @ butlast mp" using tne nr assms(3)
    by (simp add: parent_def butlast_append)
  have upne: "parent ?t \<noteq> []" using assms(2) by (simp add: up)
  have lp: "location wd (parent ?t) = butlast ?l"
    using location_parent [OF tne nr] by (simp add: lt)
  have lne: "?l \<noteq> []" using assms(3) by simp
  have plp: "plain (parent ?t)" by (rule plain_parent [OF pt])
  have ex: "os_exists wd fs (parent ?t) \<longleftrightarrow> fs (butlast ?l) \<noteq> None"
    using os_exists_plain [OF plp assms(6,7)] by (simp only: lp)
  have clp: "clear_above fs (butlast ?l)"
    using assms(8) prefix_butlast_strict [OF lne]
    by (auto simp: clear_above_def strict_prefix_def)
  have mk: "(if parent ?t \<noteq> [] \<and> \<not> os_exists wd fs (parent ?t)
             then makedirs wd (parent ?t) fs else (Returned, fs))
            = (Returned, with_dirs (butlast ?l) fs)"
  proof (cases "os_exists wd fs (parent ?t)")
    case False
    with ex have "fs (location wd (parent ?t)) = None" by (simp only: lp) simp
    from makedirs_plain [OF plp assms(6,7) this] clp False upne show ?thesis
      by (simp only: lp) simp
  next
    case True
    with ex have "fs (butlast ?l) \<noteq> None" by simp
    moreover have "\<And>c. fs (butlast ?l) \<noteq> Some (File c)"
      using assms(8) strict_prefix_butlast [OF lne, of "butlast ?l"]
      by (simp add: clear_above_def)
    ultimately have d: "fs (butlast ?l) = Some Dir"
      by (cases "fs (butlast ?l)") (auto intro: node.exhaust)
    then have "fs (butlast ?l) \<noteq> None" by simp
    from with_dirs_same [OF wf_dirs_above [OF assms(6) this] d] True show ?thesis by simp
  qed
  let ?fs1 = "with_dirs (butlast ?l) fs"
  have wd1: "?fs1 wd = Some Dir" using assms(7) by (simp add: with_dirs_def)
  have l1: "?fs1 ?l \<noteq> Some Dir"
    using assms(9) not_prefix_butlast [OF lne] by (simp add: with_dirs_def)
  have da: "dirs_above ?fs1 (location wd ?t)"
    using dirs_above_with_dirs [OF lne] by (simp only: lt)
  have l1': "?fs1 (location wd ?t) \<noteq> Some Dir" using l1 by (simp only: lt) simp
  from write_file_plain [OF pt wd1 da l1']
  have wr: "write_file wd ?t c ?fs1 = Inr (put_file ?l c fs)"
    by (simp only: lt put_file_def)
  from mk wr show ?thesis
    unfolding extract_member_def Let_def
    by (simp only: fst_conv snd_conv filter_good [OF assms(4,5)] normpath_plain [OF pt]) simp
qed

lemma put_file_at:
  "put_file l c fs q =
     (if q = l then Some (File c) else if prefix q (butlast l) then Some Dir else fs q)"
  by (simp add: put_file_def with_dirs_def)

lemma append_strict_prefix: "strict_prefix (z @ a) (z @ b) \<longleftrightarrow> strict_prefix a b"
  by (auto simp: strict_prefix_def)

lemma extractall_plain:
  assumes "plain dir" and "dir \<noteq> []"
  shows "wf_fs fs \<Longrightarrow> fs wd = Some Dir \<Longrightarrow> good_members ms \<Longrightarrow>
     \<forall>m \<in> set ms. clear_above fs (location wd dir @ fst m)
        \<and> fs (location wd dir @ fst m) \<noteq> Some Dir \<Longrightarrow>
     extractall wd dir ms fs = (Returned, unpack (location wd dir) ms fs)"
proof (induction ms arbitrary: fs)
  case Nil
  then show ?case by (simp add: unpack_def)
next
  case (Cons m ms)
  let ?z = "location wd dir"
  obtain mp c where m: "m = (mp, c)" by (cases m)
  let ?l = "?z @ mp"
  from Cons.prems(3) m have g: "mp \<noteq> []" "[] \<notin> set mp" "plain mp"
    by (auto simp: good_members_def)
  from Cons.prems(4) m have cl: "clear_above fs ?l" and nd: "fs ?l \<noteq> Some Dir" by auto
  from extract_member_plain [OF assms g Cons.prems(1,2) cl nd]
  have st: "extract_member wd dir m fs = (Returned, put_file ?l c fs)" by (simp add: m)
  let ?fs1 = "put_file ?l c fs"
  have lne: "?l \<noteq> []" using g(1) by simp
  have wf1: "wf_fs ?fs1" by (rule put_file_wf [OF Cons.prems(1) lne nd])
  have wd1: "?fs1 wd = Some Dir" using Cons.prems(2) nd by (auto simp: put_file_at)
  have g1: "good_members ms" using Cons.prems(3) by (auto simp: good_members_def)
  have h1: "\<forall>m' \<in> set ms. clear_above ?fs1 (?z @ fst m') \<and> ?fs1 (?z @ fst m') \<noteq> Some Dir"
  proof
    fix m' assume m': "m' \<in> set ms"
    from Cons.prems(3) m m' have np: "\<not> strict_prefix mp (fst m')" "\<not> strict_prefix (fst m') mp"
      by (auto simp: good_members_def)
    from Cons.prems(4) m' have old: "clear_above fs (?z @ fst m')" "fs (?z @ fst m') \<noteq> Some Dir"
      by auto
    have a: "clear_above ?fs1 (?z @ fst m')"
      unfolding clear_above_def
    proof (intro allI impI)
      fix q c' assume sp: "strict_prefix q (?z @ fst m')"
      show "?fs1 q \<noteq> Some (File c')"
      proof (cases "q = ?l")
        case True
        with sp np(1) show ?thesis by (simp add: append_strict_prefix)
      next
        case False
        with old(1) sp show ?thesis by (auto simp: put_file_at clear_above_def)
      qed
    qed
    have b: "?fs1 (?z @ fst m') \<noteq> Some Dir"
    proof (cases "prefix (?z @ fst m') (butlast ?l)")
      case True
      then have "strict_prefix (?z @ fst m') ?l" by (rule prefix_butlast_strict [OF lne])
      with np(2) show ?thesis by (simp add: append_strict_prefix)
    next
      case False
      with old(2) show ?thesis by (auto simp: put_file_at)
    qed
    from a b show "clear_above ?fs1 (?z @ fst m') \<and> ?fs1 (?z @ fst m') \<noteq> Some Dir" ..
  qed
  from Cons.IH [OF wf1 wd1 g1 h1] st show ?case by (simp add: unpack_def m)
qed

lemma unpack_Cons: "unpack z (m # ms) fs = unpack z ms (put_file (z @ fst m) (snd m) fs)"
  by (simp add: unpack_def)

lemma prefix_of_butlast_append:
  assumes "prefix q (butlast (z @ mp))" and "\<not> prefix z q"
  shows "strict_prefix q z"
proof -
  from assms(1) have "prefix q (z @ mp)" by (meson prefix_order.trans prefixeq_butlast)
  then have "prefix q z \<or> prefix z q" by (meson prefix_same_cases prefixI)
  with assms(2) show ?thesis by (auto simp: strict_prefix_def)
qed

lemma unpack_outside:
  "dirs_above fs z \<Longrightarrow> \<not> prefix z q \<Longrightarrow> unpack z ms fs q = fs q"
proof (induction ms arbitrary: fs)
  case Nil
  then show ?case by (simp add: unpack_def)
next
  case (Cons m ms)
  let ?fs1 = "put_file (z @ fst m) (snd m) fs"
  have same: "?fs1 r = fs r" if "\<not> prefix z r" for r
  proof -
    have "r \<noteq> z @ fst m" using that by auto
    moreover have "fs r = Some Dir" if "prefix r (butlast (z @ fst m))"
      using prefix_of_butlast_append [OF that \<open>\<not> prefix z r\<close>] Cons.prems(1)
      by (simp add: dirs_above_def)
    ultimately show ?thesis by (auto simp: put_file_at)
  qed
  have "dirs_above ?fs1 z"
    unfolding dirs_above_def
  proof (intro allI impI)
    fix r assume "strict_prefix r z"
    then have "\<not> prefix z r" by (auto simp: strict_prefix_def)
    from same [OF this] Cons.prems(1) \<open>strict_prefix r z\<close> show "?fs1 r = Some Dir"
      by (simp add: dirs_above_def)
  qed
  from Cons.IH [OF this Cons.prems(2)] same [OF Cons.prems(2)] show ?case
    by (simp add: unpack_Cons)
qed

lemma unpack_keeps:
  "\<forall>m \<in> set ms. fst m \<noteq> mp \<and> \<not> strict_prefix mp (fst m) \<Longrightarrow>
     unpack z ms fs (z @ mp) = fs (z @ mp)"
proof (induction ms arbitrary: fs)
  case Nil
  then show ?case by (simp add: unpack_def)
next
  case (Cons m ms)
  from Cons.prems have ne: "fst m \<noteq> mp" and np: "\<not> strict_prefix mp (fst m)" by auto
  have "\<not> prefix (z @ mp) (butlast (z @ fst m))"
  proof
    assume p: "prefix (z @ mp) (butlast (z @ fst m))"
    have "z @ fst m \<noteq> []" using p ne by (cases "z @ fst m") auto
    from prefix_butlast_strict [OF this p] np show False by (simp add: append_strict_prefix)
  qed
  with ne have "put_file (z @ fst m) (snd m) fs (z @ mp) = fs (z @ mp)"
    by (simp add: put_file_at)
  with Cons.IH [of "put_file (z @ fst m) (snd m) fs"] Cons.prems show ?case
    by (simp add: unpack_Cons)
qed

lemma unpack_member:
  "good_members ms \<Longrightarrow> distinct (map fst ms) \<Longrightarrow> (mp, c) \<in> set ms \<Longrightarrow>
     unpack z ms fs (z @ mp) = Some (File c)"
proof (induction ms arbitrary: fs)
  case Nil
  then show ?case by simp
next
  case (Cons m ms)
  have g1: "good_members ms" using Cons.prems(1) by (auto simp: good_members_def)
  show ?case
  proof (cases "m = (mp, c)")
    case True
    have "\<forall>m' \<in> set ms. fst m' \<noteq> mp \<and> \<not> strict_prefix mp (fst m')"
      using Cons.prems(1,2) True by (force simp: good_members_def)
    from unpack_keeps [OF this] True show ?thesis by (simp add: unpack_Cons put_file_at)
  next
    case False
    with Cons.prems(3) have "(mp, c) \<in> set ms" by simp
    from Cons.IH [OF g1 _ this] Cons.prems(2) show ?thesis by (simp add: unpack_Cons)
  qed
qed

lemma unpack_nodes:
  "unpack z ms fs q = Some n \<Longrightarrow>
     fs q = Some n \<or> (\<exists>m \<in> set ms. (q = z @ fst m \<and> n = File (snd m))
                                  \<or> (strict_prefix q (z @ fst m) \<and> n = Dir))"
proof (induction ms arbitrary: fs)
  case Nil
  then show ?case by (simp add: unpack_def)
next
  case (Cons m ms)
  let ?fs1 = "put_file (z @ fst m) (snd m) fs"
  from Cons.prems have "unpack z ms ?fs1 q = Some n" by (simp add: unpack_Cons)
  from Cons.IH [OF this] show ?case
  proof
    assume a: "?fs1 q = Some n"
    show ?thesis
    proof (cases "q = z @ fst m")
      case True
      with a show ?thesis by (auto simp: put_file_at)
    next
      case False
      show ?thesis
      proof (cases "prefix q (butlast (z @ fst m))")
        case True
        have "z @ fst m \<noteq> []" using True False by (cases "z @ fst m") auto
        from prefix_butlast_strict [OF this True] a False True show ?thesis
          by (auto simp: put_file_at)
      next
        case nf: False
        with a False show ?thesis by (auto simp: put_file_at)
      qed
    qed
  next
    assume "\<exists>m \<in> set ms. (q = z @ fst m \<and> n = File (snd m))
                                  \<or> (strict_prefix q (z @ fst m) \<and> n = Dir)"
    then show ?thesis by auto
  qed
qed

lemma remove_tree_wf:
  assumes "wf_fs fs" and "z \<noteq> []"
  shows "wf_fs (remove_tree z fs)"
  unfolding wf_fs_def remove_tree_def
proof (intro conjI allI impI)
  show "(if prefix z [] then None else fs []) = Some Dir"
    using assms by (simp add: wf_fs_def)
next
  fix l assume "(if prefix z l then None else fs l) \<noteq> None"
  then have nl: "\<not> prefix z l" and e: "fs l \<noteq> None" by (auto split: if_splits)
  have "\<not> prefix z (butlast l)" using nl by (meson prefix_order.trans prefixeq_butlast)
  with e assms(1) show "(if prefix z (butlast l) then None else fs (butlast l)) = Some Dir"
    by (simp add: wf_fs_def)
qed

lemma remove_tree_none:
  assumes "wf_fs fs" and "fs z = None"
  shows "remove_tree z fs = fs"
proof
  fix q
  show "remove_tree z fs q = fs q"
    using wf_below_none [OF assms, of q] by (simp add: remove_tree_def)
qed

lemma rmtree_plain:
  assumes "plain p" and "wf_fs fs" and "fs wd = Some Dir" and "fs (location wd p) = Some Dir"
    and "p \<noteq> []" and "location wd p \<noteq> []"
  shows "rmtree wd p fs = (Returned, remove_tree (location wd p) fs)"
proof -
  let ?z = "location wd p"
  have "fs ?z \<noteq> None" using assms(4) by simp
  from resolve_plain_succeeds [OF assms(1,3) wf_dirs_above [OF assms(2) this]]
  have r: "resolve wd fs p = Inr ?z" .
  have l: "last p \<noteq> ''..''" using assms(1,5) by (metis last_in_set plain_def)
  have "(\<lambda>q. if strict_prefix ?z q then None else fs q)(?z := None) = remove_tree ?z fs"
    by (auto simp: remove_tree_def fun_eq_iff strict_prefix_def)
  with r l assms(4,5,6) show ?thesis by (simp add: rmtree_def Let_def)
qed

lemma rmtree_error: "rmtree wd p fs = (Raised e, fs') \<Longrightarrow> e \<noteq> AlreadyExists"
  by (auto simp: rmtree_def Let_def split: sum.splits option.splits node.splits if_splits
      dest: resolve_error_kind)

lemma open_zip_error: "open_zip wd p fs = Inl e \<Longrightarrow> e \<noteq> AlreadyExists"
  by (auto simp: open_zip_def split: sum.splits option.splits node.splits content.splits
      dest: resolve_error_kind)

lemma write_file_error: "write_file wd p c fs = Inl e \<Longrightarrow> e \<noteq> AlreadyExists"
  by (auto simp: write_file_def split: sum.splits option.splits node.splits
      dest: resolve_error_kind)

lemma makedirs_error: "makedirs wd p fs = (Raised e, fs') \<Longrightarrow> e \<noteq> AlreadyExists"
proof (induction wd p fs arbitrary: e fs' rule: makedirs.induct)
  case (1 wd p fs)
  let ?h = "parent p"
  show ?case
  proof (cases "?h \<noteq> [] \<and> ?h \<noteq> p \<and> \<not> os_exists wd fs ?h")
    case True
    obtain o1 fs1 where rec: "makedirs wd ?h fs = (o1, fs1)" by (cases "makedirs wd ?h fs")
    show ?thesis
    proof (cases "o1 = Returned \<or> o1 = Raised FileExistsError")
      case ok: True
      with "1.prems" True rec have "\<exists>e'. os_mkdir wd p fs1 = Inl e' \<and> e = e'"
        by (subst (asm) makedirs.simps) (auto simp: Let_def split: sum.splits)
      then show ?thesis using os_mkdir_error by fastforce
    next
      case False
      then obtain e1 where e1: "o1 = Raised e1" "e1 \<noteq> FileExistsError" by (cases o1) auto
      with "1.prems" True rec have "e = e1"
        by (subst (asm) makedirs.simps) (auto simp: Let_def)
      with "1.IH" [OF refl True] rec e1 show ?thesis by simp
    qed
  next
    case False
    with "1.prems" have "\<exists>e'. os_mkdir wd p fs = Inl e' \<and> e = e'"
      by (subst (asm) makedirs.simps) (auto simp: Let_def split: sum.splits)
    then show ?thesis using os_mkdir_error by fastforce
  qed
qed

lemma extract_member_error:
  "extract_member wd dir m fs = (Raised e, fs') \<Longrightarrow> e \<noteq> AlreadyExists"
  unfolding extract_member_def Let_def
  by (auto split: if_splits prod.splits outcome.splits sum.splits
      dest: makedirs_error write_file_error)

lemma extractall_error:
  "extractall wd dir ms fs = (Raised e, fs') \<Longrightarrow> e \<noteq> AlreadyExists"
proof (induction ms arbitrary: fs)
  case Nil
  then show ?case by simp
next
  case (Cons m ms)
  obtain o1 fs1 where st: "extract_member wd dir m fs = (o1, fs1)"
    by (cases "extract_member wd dir m fs")
  show ?case
  proof (cases o1)
    case Returned
    with Cons.prems st have "extractall wd dir ms fs1 = (Raised e, fs')" by simp
    from Cons.IH [OF this] show ?thesis .
  next
    case (Raised e1)
    with Cons.prems st have "e = e1" by simp
    with extract_member_error [of wd dir m fs e1 fs1] st Raised show ?thesis by simp
  qed
qed

lemma unzip_already:
  "fst (unzip wd f overwrite fs) = Inl AlreadyExists
     \<longleftrightarrow> os_isdir wd fs (zipdir_of f) \<and> \<not> overwrite"
proof
  assume "os_isdir wd fs (zipdir_of f) \<and> \<not> overwrite"
  then show "fst (unzip wd f overwrite fs) = Inl AlreadyExists" by (simp add: unzip_unfold)
next
  assume a: "fst (unzip wd f overwrite fs) = Inl AlreadyExists"
  show "os_isdir wd fs (zipdir_of f) \<and> \<not> overwrite"
  proof (rule ccontr)
    assume n: "\<not> (os_isdir wd fs (zipdir_of f) \<and> \<not> overwrite)"
    define st where "st = (if os_isdir wd fs (zipdir_of f) then rmtree wd (zipdir_of f) fs
                           else (Returned, fs))"
    from n have u: "unzip wd f overwrite fs =
       (case st of
          (Raised e, fs1) \<Rightarrow> (Inl e, fs1)
        | (Returned, fs1) \<Rightarrow>
          (case open_zip wd (Path f) fs1 of
             Inl e \<Rightarrow> (Inl e, fs1)
           | Inr myzip \<Rightarrow>
               (case extractall wd (zipdir_of f) myzip fs1 of
                  (Raised e, fs2) \<Rightarrow> (Inl e, fs2)
                | (Returned, fs2) \<Rightarrow> (Inr (zipdir_of f), fs2))))"
      by (auto simp: unzip_unfold st_def)
    obtain o1 fs1 where st: "st = (o1, fs1)" by (cases st)
    have r: "\<And>e. o1 = Raised e \<Longrightarrow> e \<noteq> AlreadyExists"
      using st rmtree_error [of wd "zipdir_of f" fs] by (auto simp: st_def split: if_splits)
    show False
    proof (cases o1)
      case (Raised e)
      with a u st r [OF Raised] show False by simp
    next
      case Returned
      show False
      proof (cases "open_zip wd (Path f) fs1")
        case (Inl e)
        with a u st Returned open_zip_error [OF Inl] show False by simp
      next
        case (Inr ms)
        obtain o2 fs2 where ex: "extractall wd (zipdir_of f) ms fs1 = (o2, fs2)"
          by (cases "extractall wd (zipdir_of f) ms fs1")
        with a u st Returned Inr extractall_error [of wd "zipdir_of f" ms fs1 _ fs2]
        show False by (cases o2) auto
      qed
    qed
  qed
qed

lemma remove_tree_submap: "remove_tree t fs \<subseteq>\<^sub>m fs"
  by (auto simp: map_le_def remove_tree_def split: if_splits)

lemma unzip_removed:
  assumes "os_isdir wd fs (zipdir_of f)" and "overwrite"
    and "resolve wd fs (zipdir_of f) = Inr t" and "t \<noteq> []"
    and "zipdir_of f \<noteq> []" and "last (zipdir_of f) \<noteq> ''..''"
  shows "\<not> os_exists wd (remove_tree t fs) (zipdir_of f)
       \<and> unzip wd f overwrite fs = unzip wd f overwrite (remove_tree t fs)"
proof -
  let ?zd = "zipdir_of f"
  let ?fs1 = "remove_tree t fs"
  from assms(1,3) have d: "fs t = Some Dir" by (simp add: os_isdir_def)
  have "(\<lambda>q. if strict_prefix t q then None else fs q)(t := None) = ?fs1"
    by (auto simp: remove_tree_def fun_eq_iff strict_prefix_def)
  with assms(3,4,5,6) d have rm: "rmtree wd ?zd fs = (Returned, ?fs1)"
    by (simp add: rmtree_def Let_def)
  have nx: "\<not> os_exists wd ?fs1 ?zd"
  proof (cases "resolve wd ?fs1 ?zd")
    case (Inl e)
    then show ?thesis by (simp add: os_exists_def)
  next
    case (Inr t')
    from resolve_submap [OF remove_tree_submap Inr] assms(3) have "t' = t" by simp
    with Inr show ?thesis by (simp add: os_exists_def remove_tree_def)
  qed
  then have nd: "\<not> os_isdir wd ?fs1 ?zd"
    by (auto simp: os_exists_def os_isdir_def split: sum.splits)
  from assms(1,2) rm nd nx show ?thesis by (simp add: unzip_unfold)
qed

lemma stem_dotdot: "p \<noteq> [] \<Longrightarrow> \<not> is_root p \<Longrightarrow> last p = ''..'' \<Longrightarrow> stem p = ''..''"
  by (simp add: stem_def path_name_def rfind_def Let_def)

lemma zipdir_plain:
  assumes "''..'' \<notin> set (zipdir_of f)"
  shows "plain (zipdir_of f)" and "plain (Path f)"
proof -
  let ?loc = "Path f"
  note zs = zipdir_sibling [of f]
  have nd: "''.'' \<notin> set ?loc" by (rule Path_no_dot)
  have pp: "set (parent ?loc) \<subseteq> set ?loc" by (auto simp: parent_def dest: in_set_butlastD)
  from zs nd pp show "plain (zipdir_of f)" using assms by (auto simp: plain_def split: if_splits)
  show "plain ?loc"
  proof (cases "?loc = [] \<or> is_root ?loc")
    case True
    then show ?thesis by (auto simp: plain_def is_root_def)
  next
    case False
    then have ne: "?loc \<noteq> []" and nr: "\<not> is_root ?loc" by auto
    have "last ?loc \<noteq> ''..''"
    proof
      assume "last ?loc = ''..''"
      from stem_dotdot [OF ne nr this] zs assms show False by simp
    qed
    moreover have "''..'' \<notin> set (butlast ?loc)"
      using zs assms ne nr by (auto simp: parent_def)
    ultimately have "''..'' \<notin> set ?loc"
      using ne by (metis append_butlast_last_id Un_iff set_append empty_iff empty_set set_ConsD)
    with nd show ?thesis by (simp add: plain_def)
  qed
qed

lemma zipdir_location:
  assumes "wf_fs fs" and "fs wd = Some Dir"
    and "fs (location wd (Path f)) = Some (File x)"
  shows "\<exists>X. location wd (zipdir_of f) = butlast (location wd (Path f)) @ X \<and> length X \<le> 1"
proof -
  let ?loc = "Path f"
  let ?st = "stem ?loc"
  let ?X = "if ?st = [] \<or> ?st = ''.'' then [] else [?st]"
  have ne: "?loc \<noteq> []" using assms(2,3) by (auto simp: location_def)
  have nr: "\<not> is_root ?loc"
  proof
    assume "is_root ?loc"
    then have "location wd ?loc = []" by (auto simp: location_def is_root_def)
    with assms(1,3) show False by (simp add: wf_fs_def)
  qed
  have lp: "location wd (parent ?loc) = butlast (location wd ?loc)"
    by (rule location_parent [OF ne nr])
  have zs: "zipdir_of f = parent ?loc @ ?X" by (rule zipdir_sibling)
  have "location wd (parent ?loc @ ?X) = location wd (parent ?loc) @ ?X"
  proof (cases "parent ?loc = []")
    case False
    then show ?thesis by (rule location_append)
  next
    case True
    have "CHR ''/'' \<notin> set ?st" by (rule stem_no_slash)
    then have "\<not> is_root [?st]" by (auto simp: is_root_def)
    with True show ?thesis by (simp add: location_def)
  qed
  with zs lp have "location wd (zipdir_of f) = butlast (location wd ?loc) @ ?X" by simp
  moreover have "length ?X \<le> 1" by simp
  ultimately show ?thesis by blast
qed

lemma dirs_above_sibling:
  assumes "wf_fs fs" and "fs a \<noteq> None" and "length X \<le> 1"
  shows "dirs_above fs (butlast a @ X)"
  unfolding dirs_above_def
proof (intro allI impI)
  fix q assume sp: "strict_prefix q (butlast a @ X)"
  have "prefix q (butlast a)"
  proof (cases X)
    case Nil
    with sp show ?thesis by (simp add: strict_prefix_def)
  next
    case (Cons x xs)
    with assms(3) have "X = [x]" by simp
    with sp show ?thesis by (auto simp: strict_prefix_def prefix_snoc)
  qed
  moreover have d: "fs (butlast a) = Some Dir" using assms(1,2) by (simp add: wf_fs_def)
  ultimately show "fs q = Some Dir"
    using wf_dirs_above [OF assms(1), of "butlast a"]
    by (cases "q = butlast a") (auto simp: dirs_above_def strict_prefix_def)
qed

lemma unzip_total:
  assumes "wf_fs fs" and "fs wd = Some Dir" and "''..'' \<notin> set (zipdir_of f)"
    and "fs (location wd (Path f)) = Some (File (Archive ms))" and "good_members ms"
    and "fs (location wd (zipdir_of f)) = None
         \<or> (fs (location wd (zipdir_of f)) = Some Dir \<and> overwrite)"
    and "\<not> prefix (location wd (zipdir_of f)) wd"
    and "\<not> prefix (location wd (zipdir_of f)) (location wd (Path f))"
  shows "unzip wd f overwrite fs
           = (Inr (zipdir_of f), unpack (location wd (zipdir_of f)) ms
                                   (remove_tree (location wd (zipdir_of f)) fs))"
    and "dirs_above (remove_tree (location wd (zipdir_of f)) fs) (location wd (zipdir_of f))"
proof -
  let ?zd = "zipdir_of f"
  let ?z = "location wd ?zd"
  let ?loc = "Path f"
  let ?a = "location wd ?loc"
  let ?fs1 = "remove_tree ?z fs"
  note plz = zipdir_plain(1) [OF assms(3)] and pll = zipdir_plain(2) [OF assms(3)]
  have zne: "?z \<noteq> []" using assms(7) by auto
  have zdne: "?zd \<noteq> []" using assms(7) by (auto simp: location_def)
  have isd: "os_isdir wd fs ?zd \<longleftrightarrow> fs ?z = Some Dir"
    by (rule os_isdir_plain [OF plz assms(1,2)])
  from zipdir_location [OF assms(1,2,4)] obtain X
    where X: "?z = butlast ?a @ X" "length X \<le> 1" by blast
  have "fs ?a \<noteq> None" using assms(4) by simp
  from dirs_above_sibling [OF assms(1) this X(2)] X(1) have da: "dirs_above fs ?z" by simp
  have stage: "(if os_isdir wd fs ?zd
                then (if overwrite then rmtree wd ?zd fs else (Raised AlreadyExists, fs))
                else (Returned, fs)) = (Returned, ?fs1)"
    using assms(6)
  proof
    assume n: "fs ?z = None"
    with isd remove_tree_none [OF assms(1) n] show ?thesis by simp
  next
    assume d: "fs ?z = Some Dir \<and> overwrite"
    with isd rmtree_plain [OF plz assms(1,2) _ zdne zne] show ?thesis by simp
  qed
  have wf1: "wf_fs ?fs1" by (rule remove_tree_wf [OF assms(1) zne])
  have wd1: "?fs1 wd = Some Dir" using assms(2,7) by (simp add: remove_tree_def)
  have a1: "?fs1 ?a = Some (File (Archive ms))" using assms(4,8) by (simp add: remove_tree_def)
  then have "?fs1 ?a \<noteq> None" by simp
  from resolve_plain_succeeds [OF pll wd1 wf_dirs_above [OF wf1 this]] a1
  have oz: "open_zip wd ?loc ?fs1 = Inr ms" by (simp add: open_zip_def)
  show da1: "dirs_above ?fs1 ?z"
    using da by (auto simp: dirs_above_def remove_tree_def strict_prefix_def)
  have h: "\<forall>m \<in> set ms. clear_above ?fs1 (?z @ fst m) \<and> ?fs1 (?z @ fst m) \<noteq> Some Dir"
  proof
    fix m assume "m \<in> set ms"
    have "clear_above ?fs1 (?z @ fst m)"
      unfolding clear_above_def
    proof (intro allI impI)
      fix q c assume sp: "strict_prefix q (?z @ fst m)"
      show "?fs1 q \<noteq> Some (File c)"
      proof (cases "prefix ?z q")
        case True
        then show ?thesis by (simp add: remove_tree_def)
      next
        case False
        from sp have "prefix q (?z @ fst m)" by (simp add: strict_prefix_def)
        then have "prefix q ?z \<or> prefix ?z q" by (meson prefix_same_cases prefixI)
        with False have "strict_prefix q ?z" by (auto simp: strict_prefix_def)
        with da1 show ?thesis by (simp add: dirs_above_def)
      qed
    qed
    moreover have "?fs1 (?z @ fst m) \<noteq> Some Dir" by (simp add: remove_tree_def)
    ultimately show "clear_above ?fs1 (?z @ fst m) \<and> ?fs1 (?z @ fst m) \<noteq> Some Dir" ..
  qed
  from extractall_plain [OF plz zdne wf1 wd1 assms(5) h]
  have ex: "extractall wd ?zd ms ?fs1 = (Returned, unpack ?z ms ?fs1)" .
  show "unzip wd f overwrite fs = (Inr ?zd, unpack ?z ms ?fs1)"
    by (simp only: unzip_unfold stage) (simp add: oz ex)
qed

section \<open>The unpacking claim\<close>

lemma unzip_returns_zipdir: "fst (unzip wd f overwrite fs) = Inr d \<Longrightarrow> d = zipdir_of f"
  by (auto simp: unzip_unfold split: if_splits prod.splits outcome.splits sum.splits)

lemma unzip_rmtree_raises:
  "os_isdir wd fs (zipdir_of f) \<Longrightarrow> overwrite \<Longrightarrow> rmtree wd (zipdir_of f) fs = (Raised e, fs1) \<Longrightarrow>
     unzip wd f overwrite fs = (Inl e, fs1)"
  by (simp add: unzip_unfold)

lemma unzip_no_directory:
  "\<not> os_isdir wd fs (zipdir_of f) \<Longrightarrow>
     unzip wd f overwrite fs =
       (case open_zip wd (Path f) fs of
          Inl e \<Rightarrow> (Inl e, fs)
        | Inr ms \<Rightarrow>
            (case extractall wd (zipdir_of f) ms fs of
               (Raised e, fs2) \<Rightarrow> (Inl e, fs2)
             | (Returned, fs2) \<Rightarrow> (Inr (zipdir_of f), fs2)))"
  by (simp add: unzip_unfold)

text \<open>
  C7. As stated, the claim fails in its "only if": \<open>unzip\<close> also raises when the archive
  cannot be opened or extracted, with no directory in the way. Here the archive is
  missing, and then a regular file has the name of the directory.
\<close>

theorem unzip_raises_counterexample:
  "\<not> os_isdir example_wd example_disk (zipdir_of ''data/missing.zip'')
   \<and> fst (unzip example_wd ''data/missing.zip'' True example_disk) = Inl FileNotFoundError
   \<and> \<not> os_isdir example_wd example_disk (zipdir_of ''data/plain.zip'')
   \<and> example_disk [''home'', ''data'', ''plain.zip''] = Some (File (Archive example_archive))
   \<and> fst (unzip example_wd ''data/plain.zip'' False example_disk) = Inl NotADirectoryError"
  by code_simp

text \<open>
  C7, amended. On a disk without symbolic links, with \<open>zipdir\<close> the path
  \<open>location.parent / location.stem\<close>: \<open>unzip\<close> raises its own "already exists" exception
  exactly when \<open>zipdir\<close> is a directory and \<open>overwrite\<close> is False, and then nothing is
  removed and nothing extracted: the disk is as before. When \<open>zipdir\<close> is a directory and
  \<open>overwrite\<close> is True, the directory is removed before the archive is opened: if \<open>zipdir\<close>
  is not \<open>.\<close>, does not end in \<open>..\<close> and the directory is neither the current
  directory nor above it, then \<open>zipdir\<close> does not exist on the disk without the directory
  and what is below it, and the run is the run on that disk; and if removing it raises,
  \<open>unzip\<close> raises that exception. When \<open>zipdir\<close> is no directory, an exception of opening
  the archive or of extracting a member is raised by \<open>unzip\<close>, which otherwise returns
  \<open>zipdir\<close>. On a disk that is a tree holding the current directory, for a \<open>zipdir\<close>
  without \<open>..\<close> parts that is absent, or is a directory while \<open>overwrite\<close> is True, and is
  neither the current directory, nor above it, nor above the archive, and when the file
  at \<open>location\<close> is an archive of files whose names are not empty, have no empty, \<open>.\<close> or
  \<open>..\<close> part and are not directories of one another: \<open>unzip\<close> returns \<open>zipdir\<close>; the disk outside \<open>zipdir\<close> is
  unchanged; at and below \<open>zipdir\<close> there is nothing but the members, with their content,
  and the directories on the way to them; and every member is there with its content
  when the names are distinct. Whenever \<open>unzip\<close> returns, it returns \<open>zipdir\<close>, which is
  the parent of the archive's path followed by the stem of its name (by nothing when the
  stem is empty or \<open>.\<close>).
\<close>

theorem unzip_overwrite:
  "(fst (unzip wd f overwrite fs) = Inl AlreadyExists
      \<longleftrightarrow> os_isdir wd fs (zipdir_of f) \<and> \<not> overwrite)
   \<and> (os_isdir wd fs (zipdir_of f) \<and> \<not> overwrite
      \<longrightarrow> unzip wd f overwrite fs = (Inl AlreadyExists, fs))
   \<and> (os_isdir wd fs (zipdir_of f) \<and> overwrite \<and> resolve wd fs (zipdir_of f) = Inr t
        \<and> \<not> prefix t wd \<and> zipdir_of f \<noteq> [] \<and> last (zipdir_of f) \<noteq> ''..''
      \<longrightarrow> \<not> os_exists wd (remove_tree t fs) (zipdir_of f)
          \<and> unzip wd f overwrite fs = unzip wd f overwrite (remove_tree t fs))
   \<and> (os_isdir wd fs (zipdir_of f) \<and> overwrite \<and> rmtree wd (zipdir_of f) fs = (Raised e, fs1)
      \<longrightarrow> unzip wd f overwrite fs = (Inl e, fs1))
   \<and> (\<not> os_isdir wd fs (zipdir_of f)
      \<longrightarrow> unzip wd f overwrite fs =
            (case open_zip wd (Path f) fs of
               Inl e \<Rightarrow> (Inl e, fs)
             | Inr ms \<Rightarrow>
                 (case extractall wd (zipdir_of f) ms fs of
                    (Raised e, fs2) \<Rightarrow> (Inl e, fs2)
                  | (Returned, fs2) \<Rightarrow> (Inr (zipdir_of f), fs2))))
   \<and> (wf_fs fs \<and> fs wd = Some Dir \<and> ''..'' \<notin> set (zipdir_of f)
        \<and> fs (location wd (Path f)) = Some (File (Archive ms)) \<and> good_members ms
        \<and> (fs (location wd (zipdir_of f)) = None
            \<or> (fs (location wd (zipdir_of f)) = Some Dir \<and> overwrite))
        \<and> \<not> prefix (location wd (zipdir_of f)) wd
        \<and> \<not> prefix (location wd (zipdir_of f)) (location wd (Path f))
      \<longrightarrow> unzip wd f overwrite fs
            = (Inr (zipdir_of f),
               unpack (location wd (zipdir_of f)) ms (remove_tree (location wd (zipdir_of f)) fs))
          \<and> (\<forall>q. \<not> prefix (location wd (zipdir_of f)) q
                \<longrightarrow> snd (unzip wd f overwrite fs) q = fs q)
          \<and> (\<forall>q n. prefix (location wd (zipdir_of f)) q
                  \<and> snd (unzip wd f overwrite fs) q = Some n
                \<longrightarrow> (\<exists>m \<in> set ms.
                       (q = location wd (zipdir_of f) @ fst m \<and> n = File (snd m))
                       \<or> (strict_prefix q (location wd (zipdir_of f) @ fst m) \<and> n = Dir)))
          \<and> (distinct (map fst ms)
                \<longrightarrow> (\<forall>(mp, c) \<in> set ms.
                       snd (unzip wd f overwrite fs) (location wd (zipdir_of f) @ mp)
                         = Some (File c))))
   \<and> (fst (unzip wd f overwrite fs) = Inr d \<longrightarrow> d = zipdir_of f)
   \<and> zipdir_of f =
        parent (Path f)
        @ (if stem (Path f) = [] \<or> stem (Path f) = ''.'' then [] else [stem (Path f)])"
proof -
  let ?zd = "zipdir_of f"
  let ?z = "location wd ?zd"
  have c1: "fst (unzip wd f overwrite fs) = Inl AlreadyExists
      \<longleftrightarrow> os_isdir wd fs ?zd \<and> \<not> overwrite"
    by (rule unzip_already)
  have c2: "os_isdir wd fs ?zd \<and> \<not> overwrite
      \<longrightarrow> unzip wd f overwrite fs = (Inl AlreadyExists, fs)"
    by (simp add: unzip_unfold)
  have c3: "os_isdir wd fs ?zd \<and> overwrite \<and> resolve wd fs ?zd = Inr t
        \<and> \<not> prefix t wd \<and> ?zd \<noteq> [] \<and> last ?zd \<noteq> ''..''
      \<longrightarrow> \<not> os_exists wd (remove_tree t fs) ?zd
          \<and> unzip wd f overwrite fs = unzip wd f overwrite (remove_tree t fs)"
  proof (intro impI)
    assume h: "os_isdir wd fs ?zd \<and> overwrite \<and> resolve wd fs ?zd = Inr t
        \<and> \<not> prefix t wd \<and> ?zd \<noteq> [] \<and> last ?zd \<noteq> ''..''"
    then have "t \<noteq> []" by auto
    with h unzip_removed [of wd fs f overwrite t]
    show "\<not> os_exists wd (remove_tree t fs) ?zd
          \<and> unzip wd f overwrite fs = unzip wd f overwrite (remove_tree t fs)" by blast
  qed
  have c4: "os_isdir wd fs ?zd \<and> overwrite \<and> rmtree wd ?zd fs = (Raised e, fs1)
      \<longrightarrow> unzip wd f overwrite fs = (Inl e, fs1)"
    using unzip_rmtree_raises by blast
  have c5: "\<not> os_isdir wd fs ?zd
      \<longrightarrow> unzip wd f overwrite fs =
            (case open_zip wd (Path f) fs of
               Inl e \<Rightarrow> (Inl e, fs)
             | Inr ms \<Rightarrow>
                 (case extractall wd ?zd ms fs of
                    (Raised e, fs2) \<Rightarrow> (Inl e, fs2)
                  | (Returned, fs2) \<Rightarrow> (Inr ?zd, fs2)))"
    using unzip_no_directory by blast
  have c6: "wf_fs fs \<and> fs wd = Some Dir \<and> ''..'' \<notin> set ?zd
        \<and> fs (location wd (Path f)) = Some (File (Archive ms)) \<and> good_members ms
        \<and> (fs ?z = None \<or> (fs ?z = Some Dir \<and> overwrite))
        \<and> \<not> prefix ?z wd \<and> \<not> prefix ?z (location wd (Path f))
      \<longrightarrow> unzip wd f overwrite fs = (Inr ?zd, unpack ?z ms (remove_tree ?z fs))
          \<and> (\<forall>q. \<not> prefix ?z q \<longrightarrow> snd (unzip wd f overwrite fs) q = fs q)
          \<and> (\<forall>q n. prefix ?z q \<and> snd (unzip wd f overwrite fs) q = Some n
                \<longrightarrow> (\<exists>m \<in> set ms. (q = ?z @ fst m \<and> n = File (snd m))
                       \<or> (strict_prefix q (?z @ fst m) \<and> n = Dir)))
          \<and> (distinct (map fst ms)
                \<longrightarrow> (\<forall>(mp, c) \<in> set ms.
                       snd (unzip wd f overwrite fs) (?z @ mp) = Some (File c)))"
  proof (intro impI)
    assume h: "wf_fs fs \<and> fs wd = Some Dir \<and> ''..'' \<notin> set ?zd
        \<and> fs (location wd (Path f)) = Some (File (Archive ms)) \<and> good_members ms
        \<and> (fs ?z = None \<or> (fs ?z = Some Dir \<and> overwrite))
        \<and> \<not> prefix ?z wd \<and> \<not> prefix ?z (location wd (Path f))"
    then have wf: "wf_fs fs" and wd: "fs wd = Some Dir" and pl: "''..'' \<notin> set ?zd"
      and ar: "fs (location wd (Path f)) = Some (File (Archive ms))" and g: "good_members ms"
      and zs: "fs ?z = None \<or> (fs ?z = Some Dir \<and> overwrite)"
      and nw: "\<not> prefix ?z wd" and na: "\<not> prefix ?z (location wd (Path f))"
      by blast+
    let ?F = "unpack ?z ms (remove_tree ?z fs)"
    from unzip_total [OF wf wd pl ar g zs nw na]
    have run: "unzip wd f overwrite fs = (Inr ?zd, ?F)"
      and da: "dirs_above (remove_tree ?z fs) ?z" by blast+
    have out: "\<forall>q. \<not> prefix ?z q \<longrightarrow> ?F q = fs q"
      using unpack_outside [OF da] by (simp add: remove_tree_def)
    have below: "\<forall>q n. prefix ?z q \<and> ?F q = Some n
                \<longrightarrow> (\<exists>m \<in> set ms. (q = ?z @ fst m \<and> n = File (snd m))
                       \<or> (strict_prefix q (?z @ fst m) \<and> n = Dir))"
    proof (intro allI impI)
      fix q n assume a: "prefix ?z q \<and> ?F q = Some n"
      then have "remove_tree ?z fs q = None" by (simp add: remove_tree_def)
      with unpack_nodes [of ?z ms "remove_tree ?z fs" q n] a
      show "\<exists>m \<in> set ms. (q = ?z @ fst m \<and> n = File (snd m))
                       \<or> (strict_prefix q (?z @ fst m) \<and> n = Dir)" by simp
    qed
    have mem: "distinct (map fst ms) \<longrightarrow> (\<forall>(mp, c) \<in> set ms. ?F (?z @ mp) = Some (File c))"
      using unpack_member [OF g] by blast
    from run out below mem
    show "unzip wd f overwrite fs = (Inr ?zd, ?F)
          \<and> (\<forall>q. \<not> prefix ?z q \<longrightarrow> snd (unzip wd f overwrite fs) q = fs q)
          \<and> (\<forall>q n. prefix ?z q \<and> snd (unzip wd f overwrite fs) q = Some n
                \<longrightarrow> (\<exists>m \<in> set ms. (q = ?z @ fst m \<and> n = File (snd m))
                       \<or> (strict_prefix q (?z @ fst m) \<and> n = Dir)))
          \<and> (distinct (map fst ms)
                \<longrightarrow> (\<forall>(mp, c) \<in> set ms.
                       snd (unzip wd f overwrite fs) (?z @ mp) = Some (File c)))"
      by (simp only: snd_conv)
  qed
  have c7: "fst (unzip wd f overwrite fs) = Inr d \<longrightarrow> d = ?zd"
    using unzip_returns_zipdir by blast
  from c1 c2 c3 c4 c5 c6 c7 zipdir_sibling show ?thesis by (intro conjI)
qed

lemma example_disk_wf: "wf_fs example_disk"
  by (auto simp: wf_fs_def example_disk_def split: if_splits)

lemma example_archive_good: "good_members example_archive" "distinct (map fst example_archive)"
  by (simp_all add: good_members_def example_archive_def plain_def)

lemma example_zipdirs:
  "zipdir_of ''data/order.zip'' = [''data'', ''order'']"
  "zipdir_of ''data/new.zip'' = [''data'', ''new'']"
  "zipdir_of ''data/missing.zip'' = [''data'', ''missing'']"
  "zipdir_of [] = []"
  "location example_wd [''data'', ''order''] = [''home'', ''data'', ''order'']"
  "location example_wd [''data'', ''new''] = [''home'', ''data'', ''new'']"
  "location example_wd (Path ''data/order.zip'') = [''home'', ''data'', ''order.zip'']"
  "location example_wd (Path ''data/new.zip'') = [''home'', ''data'', ''new.zip'']"
  by code_simp+

lemma example_disk_at:
  "example_disk example_wd = Some Dir"
  "example_disk [''home'', ''data'', ''order''] = Some Dir"
  "example_disk [''home'', ''data'', ''new''] = None"
  "example_disk [''home'', ''data'', ''order.zip''] = Some (File (Archive example_archive))"
  "example_disk [''home'', ''data'', ''new.zip''] = Some (File (Archive example_archive))"
  by (simp_all add: example_disk_def example_wd_def)

lemma example_rmtree:
  "rmtree example_wd [] example_disk
     = (Raised OSError, \<lambda>q. if strict_prefix [''home''] q then None else example_disk q)"
proof -
  have "resolve example_wd example_disk [] = Inr [''home'']" by code_simp
  moreover have "example_disk [''home''] = Some Dir" by code_simp
  ultimately show ?thesis by (simp add: rmtree_def Let_def)
qed

theorem unzip_overwrite_witness:
  "unzip example_wd ''data/order.zip'' False example_disk = (Inl AlreadyExists, example_disk)
   \<and> fst (unzip example_wd ''data/order.zip'' False example_disk) = Inl AlreadyExists
   \<and> unzip example_wd ''data/order.zip'' True example_disk
       = unzip example_wd ''data/order.zip'' True
           (remove_tree [''home'', ''data'', ''order''] example_disk)
   \<and> fst (unzip example_wd ''data/order.zip'' True example_disk) = Inr [''data'', ''order'']
   \<and> snd (unzip example_wd ''data/order.zip'' True example_disk)
        [''home'', ''data'', ''order'', ''a.tif''] = Some (File (Bytes ''A''))
   \<and> snd (unzip example_wd ''data/order.zip'' True example_disk)
        [''home'', ''data'', ''order'', ''sub'', ''b.tif''] = Some (File (Bytes ''B''))
   \<and> example_disk [''home'', ''data'', ''order'', ''old.txt''] = Some (File (Bytes ''old''))
   \<and> snd (unzip example_wd ''data/order.zip'' True example_disk)
        [''home'', ''data'', ''order'', ''old.txt''] = None
   \<and> snd (unzip example_wd ''data/order.zip'' True example_disk)
        [''home'', ''data'', ''order.zip''] = Some (File (Archive example_archive))
   \<and> fst (unzip example_wd ''data/new.zip'' False example_disk) = Inr [''data'', ''new'']
   \<and> snd (unzip example_wd ''data/new.zip'' False example_disk)
        [''home'', ''data'', ''new'', ''a.tif''] = Some (File (Bytes ''A''))
   \<and> unzip example_wd ''data/missing.zip'' False example_disk
       = (Inl FileNotFoundError, example_disk)
   \<and> fst (unzip example_wd [] True example_disk) = Inl OSError"
proof -
  let ?o = "''data/order.zip''"
  let ?n = "''data/new.zip''"
  let ?z = "[''home'', ''data'', ''order'']"
  let ?zn = "[''home'', ''data'', ''new'']"
  note zs = example_zipdirs
  note ia = unzip_overwrite [where wd = example_wd and f = ?o and overwrite = False
      and fs = example_disk]
  note ib = unzip_overwrite [where wd = example_wd and f = ?o and overwrite = True
      and fs = example_disk and t = ?z and ms = example_archive and d = "[''data'', ''order'']"]
  note ic = unzip_overwrite [where wd = example_wd and f = "''data/missing.zip''"
      and overwrite = False and fs = example_disk]
  note id = unzip_overwrite [where wd = example_wd and f = "[]" and overwrite = True
      and fs = example_disk and e = OSError
      and ?fs1.0 = "\<lambda>q. if strict_prefix [''home''] q then None else example_disk q"]
  note ie = unzip_overwrite [where wd = example_wd and f = ?n and overwrite = False
      and fs = example_disk and ms = example_archive]
  have isd: "os_isdir example_wd example_disk (zipdir_of ?o)" by code_simp
  from isd have h2: "os_isdir example_wd example_disk (zipdir_of ?o) \<and> \<not> False" by simp
  have c2: "unzip example_wd ?o False example_disk = (Inl AlreadyExists, example_disk)"
    by (rule ia [THEN conjunct2, THEN conjunct1, THEN mp, OF h2])
  have c1: "fst (unzip example_wd ?o False example_disk) = Inl AlreadyExists"
    using ia [THEN conjunct1] h2 by simp
  have "resolve example_wd example_disk (zipdir_of ?o) = Inr ?z" by code_simp
  moreover have "\<not> prefix ?z example_wd" by code_simp
  moreover have "zipdir_of ?o \<noteq> []" "last (zipdir_of ?o) \<noteq> ''..''" by (simp_all add: zs)
  ultimately have h3: "os_isdir example_wd example_disk (zipdir_of ?o) \<and> True
      \<and> resolve example_wd example_disk (zipdir_of ?o) = Inr ?z
      \<and> \<not> prefix ?z example_wd \<and> zipdir_of ?o \<noteq> [] \<and> last (zipdir_of ?o) \<noteq> ''..''"
    using isd by simp
  have c3: "unzip example_wd ?o True example_disk
       = unzip example_wd ?o True (remove_tree ?z example_disk)"
    using ib [THEN conjunct2, THEN conjunct2, THEN conjunct1, THEN mp, OF h3] by (rule conjunct2)
  have h6: "wf_fs example_disk \<and> example_disk example_wd = Some Dir
      \<and> ''..'' \<notin> set (zipdir_of ?o)
      \<and> example_disk (location example_wd (Path ?o)) = Some (File (Archive example_archive))
      \<and> good_members example_archive
      \<and> (example_disk (location example_wd (zipdir_of ?o)) = None
          \<or> (example_disk (location example_wd (zipdir_of ?o)) = Some Dir \<and> True))
      \<and> \<not> prefix (location example_wd (zipdir_of ?o)) example_wd
      \<and> \<not> prefix (location example_wd (zipdir_of ?o)) (location example_wd (Path ?o))"
    using example_disk_wf example_archive_good(1)
    by (simp add: zs example_disk_at) (simp add: example_wd_def)
  note r6 = ib [THEN conjunct2, THEN conjunct2, THEN conjunct2, THEN conjunct2, THEN conjunct2,
      THEN conjunct1, THEN mp, OF h6]
  have c6a: "fst (unzip example_wd ?o True example_disk) = Inr [''data'', ''order'']"
    using r6 [THEN conjunct1] by (simp add: zs)
  from r6 [THEN conjunct2, THEN conjunct2, THEN conjunct2, THEN mp, OF example_archive_good(2)]
  have c6b: "snd (unzip example_wd ?o True example_disk) [''home'', ''data'', ''order'', ''a.tif'']
               = Some (File (Bytes ''A''))"
    and c6c: "snd (unzip example_wd ?o True example_disk)
               [''home'', ''data'', ''order'', ''sub'', ''b.tif''] = Some (File (Bytes ''B''))"
    by (simp_all add: zs example_archive_def)
  have old: "example_disk [''home'', ''data'', ''order'', ''old.txt''] = Some (File (Bytes ''old''))"
    by (simp add: example_disk_def)
  have c6d: "snd (unzip example_wd ?o True example_disk)
               [''home'', ''data'', ''order'', ''old.txt''] = None"
  proof (cases "snd (unzip example_wd ?o True example_disk)
               [''home'', ''data'', ''order'', ''old.txt'']")
    case None
    then show ?thesis .
  next
    case (Some n)
    have "prefix (location example_wd (zipdir_of ?o)) [''home'', ''data'', ''order'', ''old.txt'']"
      by (simp add: zs)
    with Some r6 [THEN conjunct2, THEN conjunct2, THEN conjunct1, THEN spec, THEN spec, THEN mp,
        of "[''home'', ''data'', ''order'', ''old.txt'']" n]
    have "\<exists>m \<in> set example_archive.
            ([''home'', ''data'', ''order'', ''old.txt'']
               = location example_wd (zipdir_of ?o) @ fst m \<and> n = File (snd m))
            \<or> (strict_prefix [''home'', ''data'', ''order'', ''old.txt'']
                 (location example_wd (zipdir_of ?o) @ fst m) \<and> n = Dir)" by simp
    then show ?thesis by (simp add: zs example_archive_def)
  qed
  have "\<not> prefix (location example_wd (zipdir_of ?o)) [''home'', ''data'', ''order.zip'']"
    by (simp add: zs)
  with r6 [THEN conjunct2, THEN conjunct1, THEN spec, THEN mp,
      of "[''home'', ''data'', ''order.zip'']"]
  have c6e: "snd (unzip example_wd ?o True example_disk) [''home'', ''data'', ''order.zip'']
               = Some (File (Archive example_archive))"
    by (simp add: example_disk_at)
  have h6n: "wf_fs example_disk \<and> example_disk example_wd = Some Dir
      \<and> ''..'' \<notin> set (zipdir_of ?n)
      \<and> example_disk (location example_wd (Path ?n)) = Some (File (Archive example_archive))
      \<and> good_members example_archive
      \<and> (example_disk (location example_wd (zipdir_of ?n)) = None
          \<or> (example_disk (location example_wd (zipdir_of ?n)) = Some Dir \<and> False))
      \<and> \<not> prefix (location example_wd (zipdir_of ?n)) example_wd
      \<and> \<not> prefix (location example_wd (zipdir_of ?n)) (location example_wd (Path ?n))"
    using example_disk_wf example_archive_good(1)
    by (simp add: zs example_disk_at) (simp add: example_wd_def)
  note r6n = ie [THEN conjunct2, THEN conjunct2, THEN conjunct2, THEN conjunct2, THEN conjunct2,
      THEN conjunct1, THEN mp, OF h6n]
  have c6f: "fst (unzip example_wd ?n False example_disk) = Inr [''data'', ''new'']"
    using r6n [THEN conjunct1] by (simp add: zs)
  from r6n [THEN conjunct2, THEN conjunct2, THEN conjunct2, THEN mp, OF example_archive_good(2)]
  have c6g: "snd (unzip example_wd ?n False example_disk) [''home'', ''data'', ''new'', ''a.tif'']
               = Some (File (Bytes ''A''))"
    by (simp add: zs example_archive_def)
  have nd: "\<not> os_isdir example_wd example_disk (zipdir_of ''data/missing.zip'')" by code_simp
  have oz: "open_zip example_wd (Path ''data/missing.zip'') example_disk = Inl FileNotFoundError"
    by code_simp
  have c5: "unzip example_wd ''data/missing.zip'' False example_disk
       = (Inl FileNotFoundError, example_disk)"
    using ic [THEN conjunct2, THEN conjunct2, THEN conjunct2, THEN conjunct2, THEN conjunct1,
        THEN mp, OF nd] by (simp add: oz)
  have "os_isdir example_wd example_disk (zipdir_of [])" by code_simp
  with example_rmtree
  have h4: "os_isdir example_wd example_disk (zipdir_of []) \<and> True
      \<and> rmtree example_wd (zipdir_of []) example_disk
          = (Raised OSError, \<lambda>q. if strict_prefix [''home''] q then None else example_disk q)"
    by (simp add: zs)
  have c4: "fst (unzip example_wd [] True example_disk) = Inl OSError"
    using id [THEN conjunct2, THEN conjunct2, THEN conjunct2, THEN conjunct1, THEN mp, OF h4]
    by simp
  from c2 c1 c3 c6a c6b c6c old c6d c6e c6f c6g c5 c4 show ?thesis by (intro conjI)
qed

end
